theory Spec2Isabelle
  imports Main "HOL-Library.Sublist"
begin

section \<open>Python values used by the board\<close>

text \<open>
  The two modules \<^verbatim>\<open>gomoku_board.py\<close> and \<^verbatim>\<open>win_checker.py\<close> are embedded.
  Python integers are \<open>int\<close>, Python strings are \<open>string\<close>, the grid is a list of
  lists of strings. An exception is a value \<open>Inl e\<close> of a sum type. Subscripting a list
  follows Python: a negative index counts from the end, an index out of range raises
  \<open>IndexError\<close>; a missing dictionary key raises \<open>KeyError\<close>; converting an integer of
  more than 4300 decimal digits to a string raises \<open>ValueError\<close> (the interpreter's
  default limit), also inside an f-string.
  Calls to \<^verbatim>\<open>logging\<close> and \<^verbatim>\<open>print\<close> write to the console only: the text they
  write is not part of the state, but the arguments are formatted before the call, so
  every integer conversion of every f-string is performed, in the order of the source.
  The console itself is taken to accept every text written to it.
\<close>

datatype py_error = IndexError | KeyError | ValueError

definition py_index :: "'a list \<Rightarrow> int \<Rightarrow> py_error + 'a" where
  "py_index xs i =
     (if 0 \<le> i \<and> i < int (length xs) then Inr (xs ! nat i)
      else if i < 0 \<and> 0 \<le> int (length xs) + i then Inr (xs ! nat (int (length xs) + i))
      else Inl IndexError)"

definition py_setitem :: "'a list \<Rightarrow> int \<Rightarrow> 'a \<Rightarrow> py_error + 'a list" where
  "py_setitem xs i v =
     (if 0 \<le> i \<and> i < int (length xs) then Inr (xs[nat i := v])
      else if i < 0 \<and> 0 \<le> int (length xs) + i then Inr (xs[nat (int (length xs) + i) := v])
      else Inl IndexError)"

text \<open>\<^verbatim>\<open>g[r][c]\<close> and \<^verbatim>\<open>g[r][c] = v\<close> on a list of lists. The rows of the grid are
  distinct list objects (the constructor builds each with its own comprehension and no
  operation replaces a row), so updating one row in place is updating that row's value.\<close>

definition cell_at :: "'a list list \<Rightarrow> int \<Rightarrow> int \<Rightarrow> py_error + 'a" where
  "cell_at g r c = (case py_index g r of Inl e \<Rightarrow> Inl e | Inr line \<Rightarrow> py_index line c)"

definition set_cell :: "'a list list \<Rightarrow> int \<Rightarrow> int \<Rightarrow> 'a \<Rightarrow> py_error + 'a list list" where
  "set_cell g r c v =
     (case py_index g r of
        Inl e \<Rightarrow> Inl e
      | Inr line \<Rightarrow>
          (case py_setitem line c v of
             Inl e \<Rightarrow> Inl e
           | Inr line' \<Rightarrow> py_setitem g r line'))"

text \<open>\<^verbatim>\<open>str(n)\<close> for an integer, as an f-string formats it: the decimal digits, with
  a sign for a negative number; \<open>ValueError\<close> when there are more digits than
  \<^verbatim>\<open>sys.get_int_max_str_digits()\<close>, which is 4300 unless the interpreter was configured
  otherwise.\<close>

definition int_max_str_digits :: nat where
  "int_max_str_digits = 4300"

fun digits :: "nat \<Rightarrow> string" where
  "digits n =
     (if n < 10 then [char_of (48 + n)]
      else digits (n div 10) @ [char_of (48 + n mod 10)])"

definition str_int :: "int \<Rightarrow> py_error + string" where
  "str_int i =
     (if 10 ^ int_max_str_digits \<le> \<bar>i\<bar> then Inl ValueError
      else Inr (if i < 0 then CHR ''-'' # digits (nat (- i)) else digits (nat i)))"

text \<open>The integers of one f-string, converted from left to right.\<close>

fun str_ints :: "int list \<Rightarrow> py_error + string list" where
  "str_ints [] = Inr []"
| "str_ints (i # rest) =
     (case str_int i of
        Inl e \<Rightarrow> Inl e
      | Inr s \<Rightarrow> (case str_ints rest of Inl e \<Rightarrow> Inl e | Inr ss \<Rightarrow> Inr (s # ss)))"

section \<open>gomoku\_board.py\<close>

definition BOARD_SIZE :: int where
  "BOARD_SIZE = 15"

definition BOARD_COLUMNS :: "string list" where
  "BOARD_COLUMNS = map (\<lambda>ch. [ch]) ''ABCDEFGHIJKLMNO''"

definition BOARD_COL_TO_INDEX :: "string \<rightharpoonup> int" where
  "BOARD_COL_TO_INDEX =
     fold (\<lambda>(idx, col) m. m(col \<mapsto> int idx)) (enumerate 0 BOARD_COLUMNS) Map.empty"

record gomoku_board =
  board_size :: int
  board :: "string list list"
  move_history :: "(string \<times> int \<times> string) list"
  cols :: "string list"
  col_to_idx :: "string \<rightharpoonup> int"

text \<open>\<^verbatim>\<open>GomokuBoard.__init__\<close>\<close>

definition init_board :: gomoku_board where
  "init_board =
     \<lparr> board_size = BOARD_SIZE,
       board = map (\<lambda>_. map (\<lambda>_. ''.'') [0..<nat BOARD_SIZE]) [0..<nat BOARD_SIZE],
       move_history = [],
       cols = BOARD_COLUMNS,
       col_to_idx = BOARD_COL_TO_INDEX \<rparr>"

definition validate_coordinates :: "gomoku_board \<Rightarrow> string \<Rightarrow> int \<Rightarrow> bool" where
  "validate_coordinates b col row =
     (if col_to_idx b col = None then False
      else if row < 1 \<or> row > board_size b then False
      else True)"

definition coord_to_indices :: "gomoku_board \<Rightarrow> string \<Rightarrow> int \<Rightarrow> py_error + (int \<times> int)" where
  "coord_to_indices b col row =
     (case col_to_idx b col of
        None \<Rightarrow> Inl KeyError
      | Some col_idx \<Rightarrow> Inr (board_size b - row, col_idx))"

text \<open>\<^verbatim>\<open>is_valid_move\<close>: the message of an invalid coordinate formats \<open>col\<close>, \<open>row\<close>,
  the first and last column and the size, in this order; the message of an occupied
  cell formats \<open>col\<close> and \<open>row\<close>.\<close>

definition is_valid_move :: "gomoku_board \<Rightarrow> string \<Rightarrow> int \<Rightarrow> py_error + (bool \<times> string)" where
  "is_valid_move b col row =
     (if \<not> validate_coordinates b col row then
        (case str_int row of
           Inl e \<Rightarrow> Inl e
         | Inr row_s \<Rightarrow>
        (case py_index BOARD_COLUMNS 0 of
           Inl e \<Rightarrow> Inl e
         | Inr first_col \<Rightarrow>
        (case py_index BOARD_COLUMNS (- 1) of
           Inl e \<Rightarrow> Inl e
         | Inr last_col \<Rightarrow>
        (case str_int (board_size b) of
           Inl e \<Rightarrow> Inl e
         | Inr size_s \<Rightarrow>
             Inr (False,
               ''Invalid coordinates: '' @ col @ row_s @ ''. '' @
               ''Column must be '' @ first_col @ ''-'' @ last_col @
               '', row must be 1-'' @ size_s)))))
      else
        (case coord_to_indices b col row of
           Inl e \<Rightarrow> Inl e
         | Inr (row_idx, col_idx) \<Rightarrow>
             (case cell_at (board b) row_idx col_idx of
                Inl e \<Rightarrow> Inl e
              | Inr s \<Rightarrow>
                  if s \<noteq> ''.'' then
                    (case str_int row of
                       Inl e \<Rightarrow> Inl e
                     | Inr row_s \<Rightarrow>
                         Inr (False, ''Position '' @ col @ row_s @ '' is already occupied''))
                  else Inr (True, ''''))))"

text \<open>\<^verbatim>\<open>place_stone\<close> returns its boolean together with the board after the call;
  a call that raises gives the exception together with the board as it is at that
  moment. The steps, in the order of the source:
  the debug message "Attempting to place" formats \<open>row\<close>;
  \<^verbatim>\<open>is_valid_move\<close>; the test of the stone tag;
  the debug message "Converting" formats \<open>row\<close>, \<open>row_idx\<close> and \<open>col_idx\<close>;
  the debug message "Current value" formats \<open>row_idx\<close> and \<open>col_idx\<close> and reads the cell;
  the assignment to the cell and the append to the history;
  the debug message "Successfully placed" formats \<open>row\<close>;
  the debug message "Updated move history" formats the history, which converts the row
  of every record.\<close>

definition place_stone ::
  "gomoku_board \<Rightarrow> string \<Rightarrow> int \<Rightarrow> string \<Rightarrow>
     (py_error \<times> gomoku_board) + (bool \<times> gomoku_board)" where
  "place_stone b col row stone =
     (case str_int row of
        Inl e \<Rightarrow> Inl (e, b)
      | Inr _ \<Rightarrow>
     (case is_valid_move b col row of
        Inl e \<Rightarrow> Inl (e, b)
      | Inr (is_valid, error_msg) \<Rightarrow>
          if \<not> is_valid then Inr (False, b)
          else if stone \<notin> set [''B'', ''W''] then Inr (False, b)
          else
     (case coord_to_indices b col row of
        Inl e \<Rightarrow> Inl (e, b)
      | Inr (row_idx, col_idx) \<Rightarrow>
     (case str_ints [row, row_idx, col_idx] of
        Inl e \<Rightarrow> Inl (e, b)
      | Inr _ \<Rightarrow>
     (case str_ints [row_idx, col_idx] of
        Inl e \<Rightarrow> Inl (e, b)
      | Inr _ \<Rightarrow>
     (case cell_at (board b) row_idx col_idx of
        Inl e \<Rightarrow> Inl (e, b)
      | Inr _ \<Rightarrow>
     (case set_cell (board b) row_idx col_idx stone of
        Inl e \<Rightarrow> Inl (e, b)
      | Inr g \<Rightarrow>
          (let b' = b\<lparr>board := g, move_history := move_history b @ [(col, row, stone)]\<rparr> in
           (case str_int row of
              Inl e \<Rightarrow> Inl (e, b')
            | Inr _ \<Rightarrow>
           (case str_ints (map (\<lambda>(c, r, s). r) (move_history b')) of
              Inl e \<Rightarrow> Inl (e, b')
            | Inr _ \<Rightarrow> Inr (True, b')))))))))))"

text \<open>The board after a call of \<^verbatim>\<open>place_stone\<close>, whether it returned or raised.\<close>

definition board_after :: "(py_error \<times> gomoku_board) + (bool \<times> gomoku_board) \<Rightarrow> gomoku_board" where
  "board_after res = (case res of Inl (e, b) \<Rightarrow> b | Inr (ok, b) \<Rightarrow> b)"

definition get_stone :: "gomoku_board \<Rightarrow> string \<Rightarrow> int \<Rightarrow> py_error + string option" where
  "get_stone b col row =
     (if \<not> validate_coordinates b col row then Inr None
      else
        (case coord_to_indices b col row of
           Inl e \<Rightarrow> Inl e
         | Inr (row_idx, col_idx) \<Rightarrow>
             (case cell_at (board b) row_idx col_idx of
                Inl e \<Rightarrow> Inl e
              | Inr stone \<Rightarrow> Inr (if stone \<noteq> ''.'' then Some stone else None))))"

definition get_last_move :: "gomoku_board \<Rightarrow> (string \<times> int \<times> string) option" where
  "get_last_move b = (if move_history b \<noteq> [] then Some (last (move_history b)) else None)"

section \<open>win\_checker.py\<close>

text \<open>A \<^verbatim>\<open>while\<close> loop whose step is a parameter need not stop (a zero step on a
  matching cell never leaves it), so the loops are partial functions: \<open>None\<close> is a run
  that does not return, \<open>Some (Inl e)\<close> a raised exception, \<open>Some (Inr v)\<close> a result.\<close>

definition bind_result ::
  "(py_error + 'a) option \<Rightarrow> ('a \<Rightarrow> (py_error + 'b) option) \<Rightarrow> (py_error + 'b) option" where
  "bind_result m f =
     (case m of None \<Rightarrow> None | Some (Inl e) \<Rightarrow> Some (Inl e) | Some (Inr x) \<Rightarrow> f x)"

partial_function (option) count_loop ::
  "gomoku_board \<Rightarrow> int \<Rightarrow> int \<Rightarrow> string \<Rightarrow> int \<Rightarrow> int \<Rightarrow> int \<Rightarrow> (py_error + int) option" where
  "count_loop b dr dc stone count row col =
     (if 0 \<le> row \<and> row < board_size b \<and> 0 \<le> col \<and> col < board_size b then
        (case cell_at (board b) row col of
           Inl e \<Rightarrow> Some (Inl e)
         | Inr s \<Rightarrow>
             if s = stone then count_loop b dr dc stone (count + 1) (row + dr) (col + dc)
             else Some (Inr count))
      else Some (Inr count))"

declare count_loop.simps [code]

definition count_consecutive ::
  "gomoku_board \<Rightarrow> int \<Rightarrow> int \<Rightarrow> int \<Rightarrow> int \<Rightarrow> string \<Rightarrow> (py_error + int) option" where
  "count_consecutive b start_row start_col dr dc stone =
     count_loop b dr dc stone 0 (start_row + dr) (start_col + dc)"

definition directions :: "(int \<times> int) list" where
  "directions = [(0, 1), (1, 0), (1, 1), (1, - 1)]"

fun check_win_loop ::
  "gomoku_board \<Rightarrow> int \<Rightarrow> int \<Rightarrow> string \<Rightarrow> (int \<times> int) list \<Rightarrow> (py_error + bool) option" where
  "check_win_loop b row_idx col_idx stone [] = Some (Inr False)"
| "check_win_loop b row_idx col_idx stone ((dr, dc) # ds) =
     bind_result (count_consecutive b row_idx col_idx dr dc stone) (\<lambda>n_pos.
     bind_result (count_consecutive b row_idx col_idx (- dr) (- dc) stone) (\<lambda>n_neg.
       if 1 + n_pos + n_neg \<ge> 5 then Some (Inr True)
       else check_win_loop b row_idx col_idx stone ds))"

definition check_win :: "gomoku_board \<Rightarrow> string \<Rightarrow> int \<Rightarrow> string \<Rightarrow> (py_error + bool) option" where
  "check_win b col row stone =
     (if \<not> validate_coordinates b col row then Some (Inr False)
      else
        (case coord_to_indices b col row of
           Inl e \<Rightarrow> Some (Inl e)
         | Inr (row_idx, col_idx) \<Rightarrow> check_win_loop b row_idx col_idx stone directions))"

fun row_full :: "string list \<Rightarrow> bool" where
  "row_full [] = True"
| "row_full (cell # cells) = (if cell = ''.'' then False else row_full cells)"

fun rows_full :: "string list list \<Rightarrow> bool" where
  "rows_full [] = True"
| "rows_full (line # lines) = (if \<not> row_full line then False else rows_full lines)"

definition is_board_full :: "gomoku_board \<Rightarrow> bool" where
  "is_board_full b = rows_full (board b)"

text \<open>The conversion of array indices back to a coordinate, as the body of the loop of
  \<^verbatim>\<open>_collect_line\<close> computes it.\<close>

definition indices_to_coord :: "gomoku_board \<Rightarrow> int \<Rightarrow> int \<Rightarrow> py_error + (string \<times> int)" where
  "indices_to_coord b row col =
     (case py_index (cols b) col of
        Inl e \<Rightarrow> Inl e
      | Inr board_col \<Rightarrow> Inr (board_col, board_size b - row))"

partial_function (option) collect_loop ::
  "gomoku_board \<Rightarrow> int \<Rightarrow> int \<Rightarrow> string \<Rightarrow> (string \<times> int) list \<Rightarrow> int \<Rightarrow> int \<Rightarrow>
     (py_error + (string \<times> int) list) option" where
  "collect_loop b dr dc stone line_positions row col =
     (if 0 \<le> row \<and> row < board_size b \<and> 0 \<le> col \<and> col < board_size b then
        (case cell_at (board b) row col of
           Inl e \<Rightarrow> Some (Inl e)
         | Inr s \<Rightarrow>
             if s = stone then
               (case indices_to_coord b row col of
                  Inl e \<Rightarrow> Some (Inl e)
                | Inr p \<Rightarrow>
                    collect_loop b dr dc stone (line_positions @ [p]) (row + dr) (col + dc))
             else Some (Inr line_positions))
      else Some (Inr line_positions))"

declare collect_loop.simps [code]

definition collect_line ::
  "gomoku_board \<Rightarrow> int \<Rightarrow> int \<Rightarrow> int \<Rightarrow> int \<Rightarrow> string \<Rightarrow> (string \<times> int) list \<Rightarrow>
     (py_error + (string \<times> int) list) option" where
  "collect_line b start_row start_col dr dc stone line_positions =
     collect_loop b dr dc stone line_positions (start_row + dr) (start_col + dc)"

fun winning_line_loop ::
  "gomoku_board \<Rightarrow> string \<Rightarrow> int \<Rightarrow> int \<Rightarrow> int \<Rightarrow> string \<Rightarrow> (int \<times> int) list \<Rightarrow>
     (py_error + (string \<times> int) list option) option" where
  "winning_line_loop b col row row_idx col_idx stone [] = Some (Inr None)"
| "winning_line_loop b col row row_idx col_idx stone ((dr, dc) # ds) =
     bind_result (collect_line b row_idx col_idx dr dc stone [(col, row)]) (\<lambda>ps.
     bind_result (collect_line b row_idx col_idx (- dr) (- dc) stone ps) (\<lambda>line_positions.
       if int (length line_positions) \<ge> 5 then Some (Inr (Some (take 5 line_positions)))
       else winning_line_loop b col row row_idx col_idx stone ds))"

definition get_winning_line ::
  "gomoku_board \<Rightarrow> string \<Rightarrow> int \<Rightarrow> string \<Rightarrow> (py_error + (string \<times> int) list option) option" where
  "get_winning_line b col row stone =
     bind_result (check_win b col row stone) (\<lambda>won.
       if \<not> won then Some (Inr None)
       else
         (case coord_to_indices b col row of
            Inl e \<Rightarrow> Some (Inl e)
          | Inr (row_idx, col_idx) \<Rightarrow>
              winning_line_loop b col row row_idx col_idx stone directions))"

section \<open>Well-formed boards\<close>

text \<open>The class invariant that \<^verbatim>\<open>__init__\<close> establishes: the three constants hold the
  module's values and the grid is a square of \<open>BOARD_SIZE\<close> rows of \<open>BOARD_SIZE\<close> cells.\<close>

definition wf_board :: "gomoku_board \<Rightarrow> bool" where
  "wf_board b \<longleftrightarrow>
     board_size b = BOARD_SIZE \<and> cols b = BOARD_COLUMNS \<and> col_to_idx b = BOARD_COL_TO_INDEX \<and>
     length (board b) = nat BOARD_SIZE \<and>
     list_all (\<lambda>line. length line = nat BOARD_SIZE) (board b)"

text \<open>The content of the cell a valid coordinate names.\<close>

definition stone_at :: "gomoku_board \<Rightarrow> string \<Rightarrow> int \<Rightarrow> string" where
  "stone_at b col row = board b ! nat (board_size b - row) ! nat (the (col_to_idx b col))"

text \<open>A move that \<^verbatim>\<open>place_stone\<close> accepts: a valid coordinate, an empty cell, one of
  the two stone tags.\<close>

definition legal_move :: "gomoku_board \<Rightarrow> string \<Rightarrow> int \<Rightarrow> string \<Rightarrow> bool" where
  "legal_move b col row stone \<longleftrightarrow>
     validate_coordinates b col row \<and> stone_at b col row = ''.'' \<and> (stone = ''B'' \<or> stone = ''W'')"

text \<open>The number of non-empty cells of the grid.\<close>

definition nonempty_count :: "gomoku_board \<Rightarrow> nat" where
  "nonempty_count b = sum_list (map (\<lambda>line. length (filter (\<lambda>cell. cell \<noteq> ''.'') line)) (board b))"

text \<open>\<open>plays b b'\<close>: the board \<open>b'\<close> is what \<open>b\<close> has become after some sequence of
  \<^verbatim>\<open>place_stone\<close> calls, with any arguments: calls that succeeded, calls that returned
  false and calls that raised.\<close>

inductive plays :: "gomoku_board \<Rightarrow> gomoku_board \<Rightarrow> bool" where
  plays_none: "plays b b"
| plays_step: "plays b b' \<Longrightarrow> b'' = board_after (place_stone b' col row stone) \<Longrightarrow> plays b b''"

text \<open>An integer that the conversion to a string accepts, and a history all of whose
  rows are such integers.\<close>

definition printable :: "int \<Rightarrow> bool" where
  "printable i \<longleftrightarrow> \<bar>i\<bar> < 10 ^ int_max_str_digits"

definition printable_history :: "gomoku_board \<Rightarrow> bool" where
  "printable_history b \<longleftrightarrow> list_all (\<lambda>(c, r, s). printable r) (move_history b)"

section \<open>Runs and lines, as the specification words them\<close>

text \<open>A same-owner stone at the array position \<open>(r, c)\<close>: the position is on the board and
  its cell holds \<open>stone\<close>.\<close>

definition owner_at :: "gomoku_board \<Rightarrow> string \<Rightarrow> int \<Rightarrow> int \<Rightarrow> bool" where
  "owner_at b stone r c \<longleftrightarrow>
     0 \<le> r \<and> r < board_size b \<and> 0 \<le> c \<and> c < board_size b \<and> board b ! nat r ! nat c = stone"

text \<open>The number of consecutive same-owner stones adjacent to the position \<open>(r, c)\<close> in
  the direction \<open>(dr, dc)\<close>: the cells at distance 1, 2, ... as long as they hold \<open>stone\<close>.\<close>

definition adjacent_run :: "gomoku_board \<Rightarrow> string \<Rightarrow> int \<Rightarrow> int \<Rightarrow> int \<Rightarrow> int \<Rightarrow> nat" where
  "adjacent_run b stone r c dr dc =
     length (takeWhile (\<lambda>k. owner_at b stone (r + int k * dr) (c + int k * dc))
       [1..<Suc (nat (board_size b))])"

text \<open>One plus the runs on the two sides of \<open>(r, c)\<close> along the direction \<open>d\<close>.\<close>

definition line_total :: "gomoku_board \<Rightarrow> string \<Rightarrow> int \<Rightarrow> int \<Rightarrow> int \<times> int \<Rightarrow> nat" where
  "line_total b stone r c d =
     1 + adjacent_run b stone r c (fst d) (snd d) + adjacent_run b stone r c (- fst d) (- snd d)"

text \<open>The coordinates of the first \<open>n\<close> cells from \<open>(r, c)\<close> in the direction \<open>(dr, dc)\<close>, in
  increasing distance.\<close>

definition ray :: "gomoku_board \<Rightarrow> int \<Rightarrow> int \<Rightarrow> int \<Rightarrow> int \<Rightarrow> nat \<Rightarrow> (string \<times> int) list" where
  "ray b r c dr dc n =
     map (\<lambda>k. (cols b ! nat (c + int k * dc), board_size b - (r + int k * dr))) [1..<Suc n]"

text \<open>The placed cell, then its same-owner neighbours in the positive direction, then
  those in the negative direction.\<close>

definition line_cells ::
  "gomoku_board \<Rightarrow> string \<Rightarrow> string \<Rightarrow> int \<Rightarrow> int \<times> int \<Rightarrow> (string \<times> int) list" where
  "line_cells b stone col row d =
     (let r = board_size b - row; c = the (col_to_idx b col) in
      (col, row) #
      ray b r c (fst d) (snd d) (adjacent_run b stone r c (fst d) (snd d)) @
      ray b r c (- fst d) (- snd d) (adjacent_run b stone r c (- fst d) (- snd d)))"

text \<open>Whether the coordinate \<open>(col, row)\<close> has a line of five or more along \<open>d\<close>.\<close>

definition wins_along :: "gomoku_board \<Rightarrow> string \<Rightarrow> string \<Rightarrow> int \<Rightarrow> int \<times> int \<Rightarrow> bool" where
  "wins_along b stone col row d \<longleftrightarrow>
     5 \<le> line_total b stone (board_size b - row) (the (col_to_idx b col)) d"

text \<open>A board with a given content, for examples: the cell at array position \<open>(r, c)\<close>
  holds \<open>f r c\<close>.\<close>

definition board_of :: "(nat \<Rightarrow> nat \<Rightarrow> string) \<Rightarrow> gomoku_board" where
  "board_of f =
     init_board\<lparr>board := map (\<lambda>r. map (\<lambda>c. f r c) [0..<nat BOARD_SIZE]) [0..<nat BOARD_SIZE]\<rparr>"

text \<open>An example position: black stones on C8 to H8 (six in a row) and on E8 to E12.\<close>

definition example_board :: gomoku_board where
  "example_board =
     board_of (\<lambda>r c. if (r = 7 \<and> 2 \<le> c \<and> c \<le> 7) \<or> (c = 4 \<and> 3 \<le> r \<and> r \<le> 7) then ''B'' else ''.'')"

text \<open>The same list of cells, from the array position \<open>(r, c)\<close> of the coordinate.\<close>

definition line_from ::
  "gomoku_board \<Rightarrow> string \<Rightarrow> string \<Rightarrow> int \<Rightarrow> int \<Rightarrow> int \<Rightarrow> int \<times> int \<Rightarrow> (string \<times> int) list" where
  "line_from b stone col row r c d =
     (col, row) # ray b r c (fst d) (snd d) (adjacent_run b stone r c (fst d) (snd d)) @
       ray b r c (- fst d) (- snd d) (adjacent_run b stone r c (- fst d) (- snd d))"

text \<open>The board \<open>b\<close> with the content of the cell of the coordinate \<open>(col, row)\<close> replaced by
  \<open>x\<close>.\<close>

definition with_cell :: "gomoku_board \<Rightarrow> string \<Rightarrow> int \<Rightarrow> string \<Rightarrow> gomoku_board" where
  "with_cell b col row x =
     b\<lparr>board := (board b)[nat (board_size b - row) :=
          (board b ! nat (board_size b - row))[nat (the (col_to_idx b col)) := x]]\<rparr>"

section \<open>The column table\<close>

lemma length_cols: "length BOARD_COLUMNS = 15"
  by (simp add: BOARD_COLUMNS_def)

lemma distinct_cols: "distinct BOARD_COLUMNS"
  by (simp add: BOARD_COLUMNS_def distinct_map inj_on_def)

lemma fold_enumerate_other:
  assumes "f = (\<lambda>(idx, col) m. m(col \<mapsto> int idx))"
  shows "k \<notin> set xs \<Longrightarrow> fold f (enumerate n xs) m0 k = m0 k"
  by (induction xs arbitrary: n m0) (auto simp: assms)

lemma fold_enumerate_nth:
  assumes f: "f = (\<lambda>(idx, col) m. m(col \<mapsto> int idx))"
  shows "i < length xs \<Longrightarrow> distinct xs \<Longrightarrow>
    fold f (enumerate n xs) m0 (xs ! i) = Some (int (n + i))"
proof (induction xs arbitrary: n m0 i)
  case Nil
  then show ?case by simp
next
  case (Cons x xs)
  have step: "fold f (enumerate n (x # xs)) m0 = fold f (enumerate (Suc n) xs) (m0(x \<mapsto> int n))"
    by (simp add: f)
  show ?case
  proof (cases i)
    case 0
    from Cons.prems have "x \<notin> set xs" by simp
    then have "fold f (enumerate (Suc n) xs) (m0(x \<mapsto> int n)) x = (m0(x \<mapsto> int n)) x"
      by (rule fold_enumerate_other [OF f])
    with 0 step show ?thesis by simp
  next
    case (Suc j)
    from Cons.prems Suc have "j < length xs" "distinct xs" by simp_all
    then have "fold f (enumerate (Suc n) xs) (m0(x \<mapsto> int n)) (xs ! j) = Some (int (Suc n + j))"
      by (rule Cons.IH)
    with Suc step show ?thesis by simp
  qed
qed

lemma col_to_index_nth:
  "i < 15 \<Longrightarrow> BOARD_COL_TO_INDEX (BOARD_COLUMNS ! i) = Some (int i)"
  using fold_enumerate_nth [OF refl, of i BOARD_COLUMNS 0 Map.empty]
  by (simp add: BOARD_COL_TO_INDEX_def length_cols distinct_cols)

lemma col_to_index_None:
  "col \<notin> set BOARD_COLUMNS \<Longrightarrow> BOARD_COL_TO_INDEX col = None"
  using fold_enumerate_other [OF refl, of col BOARD_COLUMNS 0 Map.empty]
  by (simp add: BOARD_COL_TO_INDEX_def)

lemma col_to_index_Some:
  "BOARD_COL_TO_INDEX col = Some i \<longleftrightarrow> 0 \<le> i \<and> i < 15 \<and> BOARD_COLUMNS ! nat i = col"
proof
  assume a: "BOARD_COL_TO_INDEX col = Some i"
  then have "col \<in> set BOARD_COLUMNS"
    using col_to_index_None by fastforce
  then obtain j where j: "j < 15" "BOARD_COLUMNS ! j = col"
    by (auto simp: in_set_conv_nth length_cols)
  with a col_to_index_nth [of j] have "i = int j" by simp
  with j show "0 \<le> i \<and> i < 15 \<and> BOARD_COLUMNS ! nat i = col" by simp
next
  assume h: "0 \<le> i \<and> i < 15 \<and> BOARD_COLUMNS ! nat i = col"
  then have "nat i < 15" by arith
  from col_to_index_nth [OF this] h show "BOARD_COL_TO_INDEX col = Some i" by simp
qed


section \<open>Reads and writes on a well-formed board\<close>

lemma wf_init_board: "wf_board init_board"
  by (simp add: wf_board_def init_board_def BOARD_SIZE_def list_all_iff)

lemma wf_cell_at:
  assumes "wf_board b" "0 \<le> r" "r < 15" "0 \<le> c" "c < 15"
  shows "cell_at (board b) r c = Inr (board b ! nat r ! nat c)"
proof -
  from assms have len: "length (board b) = 15" and r: "nat r < length (board b)"
    by (simp_all add: wf_board_def BOARD_SIZE_def)
  then have "board b ! nat r \<in> set (board b)" by simp
  with assms have "length (board b ! nat r) = 15"
    by (simp add: wf_board_def BOARD_SIZE_def list_all_iff)
  with assms len show ?thesis
    by (simp add: cell_at_def py_index_def)
qed

lemma wf_set_cell:
  assumes "wf_board b" "0 \<le> r" "r < 15" "0 \<le> c" "c < 15"
  shows "set_cell (board b) r c v = Inr ((board b)[nat r := (board b ! nat r)[nat c := v]])"
proof -
  from assms have len: "length (board b) = 15" and r: "nat r < length (board b)"
    by (simp_all add: wf_board_def BOARD_SIZE_def)
  then have "board b ! nat r \<in> set (board b)" by simp
  with assms have "length (board b ! nat r) = 15"
    by (simp add: wf_board_def BOARD_SIZE_def list_all_iff)
  with assms len show ?thesis
    by (simp add: set_cell_def py_index_def py_setitem_def)
qed

lemma wf_size: "wf_board b \<Longrightarrow> board_size b = 15"
  by (simp add: wf_board_def BOARD_SIZE_def)

lemma wf_cols: "wf_board b \<Longrightarrow> cols b = BOARD_COLUMNS"
  by (simp add: wf_board_def)

lemma wf_col_to_idx: "wf_board b \<Longrightarrow> col_to_idx b = BOARD_COL_TO_INDEX"
  by (simp add: wf_board_def)

lemma col_to_index_dom: "BOARD_COL_TO_INDEX col \<noteq> None \<longleftrightarrow> col \<in> set BOARD_COLUMNS"
proof
  assume a: "BOARD_COL_TO_INDEX col \<noteq> None"
  show "col \<in> set BOARD_COLUMNS"
  proof (rule ccontr)
    assume "col \<notin> set BOARD_COLUMNS"
    from col_to_index_None [OF this] a show False by simp
  qed
next
  assume "col \<in> set BOARD_COLUMNS"
  then have "\<exists>j<length BOARD_COLUMNS. BOARD_COLUMNS ! j = col"
    by (simp only: in_set_conv_nth)
  then obtain j where "j < 15" "BOARD_COLUMNS ! j = col"
    by (auto simp: length_cols)
  with col_to_index_nth [of j] show "BOARD_COL_TO_INDEX col \<noteq> None" by simp
qed

lemma wf_validate:
  assumes "wf_board b"
  shows "validate_coordinates b col row \<longleftrightarrow> col \<in> set BOARD_COLUMNS \<and> 1 \<le> row \<and> row \<le> 15"
proof -
  have "validate_coordinates b col row \<longleftrightarrow> BOARD_COL_TO_INDEX col \<noteq> None \<and> 1 \<le> row \<and> row \<le> 15"
    unfolding validate_coordinates_def wf_size [OF assms] wf_col_to_idx [OF assms]
    by (cases "BOARD_COL_TO_INDEX col") simp_all
  then show ?thesis unfolding col_to_index_dom .
qed

lemma wf_valid_indices:
  assumes wf: "wf_board b" and v: "validate_coordinates b col row"
  obtains ci where "col_to_idx b col = Some ci" "0 \<le> ci" "ci < 15" "BOARD_COLUMNS ! nat ci = col"
    "coord_to_indices b col row = Inr (15 - row, ci)" "0 \<le> 15 - row" "15 - row < 15"
proof -
  from v have "col_to_idx b col \<noteq> None" and r: "1 \<le> row" "row \<le> 15"
    unfolding validate_coordinates_def wf_size [OF wf] by (simp_all split: if_splits)
  then obtain ci where ci: "col_to_idx b col = Some ci" by auto
  then have "BOARD_COL_TO_INDEX col = Some ci" unfolding wf_col_to_idx [OF wf] .
  then have ci': "0 \<le> ci" "ci < 15" "BOARD_COLUMNS ! nat ci = col"
    unfolding col_to_index_Some by simp_all
  have "coord_to_indices b col row = Inr (15 - row, ci)"
    unfolding coord_to_indices_def ci wf_size [OF wf] by simp
  with ci ci' r show ?thesis by (intro that [of ci]) simp_all
qed


section \<open>Reading, placing and the coordinate mapping\<close>

lemma wf_get_stone:
  assumes wf: "wf_board b"
  shows "get_stone b col row =
     Inr (if validate_coordinates b col row \<and> stone_at b col row \<noteq> ''.''
          then Some (stone_at b col row) else None)"
proof (cases "validate_coordinates b col row")
  case False
  then show ?thesis by (simp add: get_stone_def)
next
  case True
  from wf True obtain ci where ci: "col_to_idx b col = Some ci" "0 \<le> ci" "ci < 15"
    "coord_to_indices b col row = Inr (15 - row, ci)" "0 \<le> 15 - row" "15 - row < 15"
    by (rule wf_valid_indices)
  from wf ci have "cell_at (board b) (15 - row) ci = Inr (board b ! nat (15 - row) ! nat ci)"
    by (intro wf_cell_at) simp_all
  with True ci show ?thesis
    by (simp add: get_stone_def stone_at_def wf_size [OF wf])
qed

text \<open>Claim C4, as the code has it: on a well-formed board \<^verbatim>\<open>get_stone\<close> raises nothing;
  it returns the stone of an occupied in-bounds cell, and the same \<^verbatim>\<open>None\<close> both for an
  empty in-bounds cell and for a coordinate out of range.\<close>

theorem get_stone_result:
  "wf_board b \<Longrightarrow>
   get_stone b col row =
     Inr (if validate_coordinates b col row \<and> stone_at b col row \<noteq> ''.''
          then Some (stone_at b col row) else None)"
  by (rule wf_get_stone)

theorem get_stone_result_witness:
  "wf_board init_board \<and> get_stone init_board ''H'' 8 = Inr None \<and>
   get_stone init_board ''Z'' 8 = Inr None"
proof -
  have a: "(if validate_coordinates init_board ''H'' 8 \<and> stone_at init_board ''H'' 8 \<noteq> ''.''
            then Some (stone_at init_board ''H'' 8) else None) = None"
    by code_simp
  have b: "(if validate_coordinates init_board ''Z'' 8 \<and> stone_at init_board ''Z'' 8 \<noteq> ''.''
            then Some (stone_at init_board ''Z'' 8) else None) = None"
    by code_simp
  from a b show ?thesis
    using get_stone_result [OF wf_init_board, of "''H''" 8]
      get_stone_result [OF wf_init_board, of "''Z''" 8] wf_init_board
    by simp
qed

text \<open>Claim C4 as stated fails: on the empty board the in-bounds empty cell A1 and the
  out-of-range coordinate Z1 give the same return value.\<close>

theorem get_stone_empty_vs_invalid_counterexample:
  "validate_coordinates init_board ''A'' 1 \<and> \<not> validate_coordinates init_board ''Z'' 1 \<and>
   get_stone init_board ''A'' 1 = Inr None \<and>
   get_stone init_board ''Z'' 1 = get_stone init_board ''A'' 1"
  by code_simp

lemma wf_indices_to_coord:
  assumes wf: "wf_board b" and c: "0 \<le> c" "c < 15"
  shows "indices_to_coord b r c = Inr (BOARD_COLUMNS ! nat c, 15 - r)"
  using c by (simp add: indices_to_coord_def py_index_def wf_cols [OF wf] wf_size [OF wf] length_cols)

text \<open>Claim C7: for a valid coordinate, \<^verbatim>\<open>_coord_to_indices\<close> sends row \<open>r\<close> to row index
  \<open>size - r\<close> and the column letter to its position in the letter sequence, and the
  conversion back (as \<^verbatim>\<open>_collect_line\<close> does it) gives the coordinate again.\<close>

theorem coord_roundtrip:
  assumes wf: "wf_board b" and v: "validate_coordinates b col row"
  shows "\<exists>ci. coord_to_indices b col row = Inr (board_size b - row, ci) \<and>
           0 \<le> ci \<and> ci < int (length BOARD_COLUMNS) \<and> BOARD_COLUMNS ! nat ci = col \<and>
           indices_to_coord b (board_size b - row) ci = Inr (col, row)"
proof -
  from wf v obtain ci where ci: "0 \<le> ci" "ci < 15" "BOARD_COLUMNS ! nat ci = col"
    "coord_to_indices b col row = Inr (15 - row, ci)"
    by (rule wf_valid_indices)
  from wf_indices_to_coord [OF wf ci(1,2), of "15 - row"] ci(3)
  have "indices_to_coord b (15 - row) ci = Inr (col, row)" by simp
  with ci show ?thesis by (auto simp: wf_size [OF wf] length_cols)
qed

theorem coord_roundtrip_witness:
  "wf_board init_board \<and> validate_coordinates init_board ''C'' 4 \<and>
   coord_to_indices init_board ''C'' 4 = Inr (11, 2) \<and>
   indices_to_coord init_board 11 2 = Inr (''C'', 4)"
proof -
  have v: "validate_coordinates init_board ''C'' 4" by code_simp
  have e: "coord_to_indices init_board ''C'' 4 = Inr (11, 2)" by code_simp
  have s: "board_size init_board = 15" by code_simp
  from coord_roundtrip [OF wf_init_board v] e s wf_init_board v show ?thesis by auto
qed

lemma small_printable: "\<bar>i\<bar> \<le> 15 \<Longrightarrow> printable i"
proof -
  assume a: "\<bar>i\<bar> \<le> 15"
  have "(10::int) ^ 2 \<le> 10 ^ int_max_str_digits"
    by (rule power_increasing) (simp_all add: int_max_str_digits_def)
  with a show "printable i" by (simp add: printable_def)
qed

lemma str_int_printable: "printable i \<Longrightarrow> \<exists>s. str_int i = Inr s"
  by (simp add: str_int_def printable_def)

lemma str_int_unprintable: "\<not> printable i \<Longrightarrow> str_int i = Inl ValueError"
  by (simp add: str_int_def printable_def)

lemma str_ints_printable: "list_all printable xs \<Longrightarrow> \<exists>ss. str_ints xs = Inr ss"
proof (induction xs)
  case Nil
  show ?case by simp
next
  case (Cons i xs)
  then obtain s ss where "str_int i = Inr s" "str_ints xs = Inr ss"
    using str_int_printable [of i] by auto
  then show ?case by simp
qed

lemma str_ints_unprintable: "\<not> list_all printable xs \<Longrightarrow> str_ints xs = Inl ValueError"
proof (induction xs)
  case Nil
  then show ?case by simp
next
  case (Cons i xs)
  show ?case
  proof (cases "printable i")
    case False
    then show ?thesis by (simp add: str_int_unprintable)
  next
    case True
    then obtain s where s: "str_int i = Inr s" using str_int_printable by blast
    from True Cons.prems have "\<not> list_all printable xs" by simp
    from Cons.IH [OF this] s show ?thesis by simp
  qed
qed

lemma printable_rows:
  "list_all printable (map (\<lambda>(c, r, s). r) h) = list_all (\<lambda>(c, r, s). printable r) h"
  by (induction h) auto

lemma place_stone_wf_eq:
  assumes wf: "wf_board b"
  shows "place_stone b col row stone =
    (if \<not> printable row then Inl (ValueError, b)
     else if \<not> (validate_coordinates b col row \<and> stone_at b col row = ''.'' \<and> stone \<in> {''B'', ''W''})
     then Inr (False, b)
     else if printable_history b
     then Inr (True, b\<lparr>board := (board b)[nat (15 - row) :=
                 (board b ! nat (15 - row))[nat (the (col_to_idx b col)) := stone]],
               move_history := move_history b @ [(col, row, stone)]\<rparr>)
     else Inl (ValueError, b\<lparr>board := (board b)[nat (15 - row) :=
                 (board b ! nat (15 - row))[nat (the (col_to_idx b col)) := stone]],
               move_history := move_history b @ [(col, row, stone)]\<rparr>))"
proof (cases "printable row")
  case False
  then show ?thesis by (simp add: place_stone_def str_int_unprintable)
next
  case pr: True
  then obtain row_s where row_s: "str_int row = Inr row_s"
    using str_int_printable by blast
  show ?thesis
  proof (cases "validate_coordinates b col row")
    case False
    have "printable (board_size b)"
      unfolding wf_size [OF wf] by (rule small_printable) simp
    then obtain size_s where "str_int (board_size b) = Inr size_s"
      using str_int_printable by blast
    with False pr row_s show ?thesis
      by (simp add: place_stone_def is_valid_move_def py_index_def length_cols)
  next
    case True
    from wf True obtain ci where ci: "col_to_idx b col = Some ci" "0 \<le> ci" "ci < 15"
      "coord_to_indices b col row = Inr (15 - row, ci)" "0 \<le> 15 - row" "15 - row < 15"
      by (rule wf_valid_indices)
    from wf ci have rd: "cell_at (board b) (15 - row) ci = Inr (board b ! nat (15 - row) ! nat ci)"
      by (intro wf_cell_at) simp_all
    from wf ci have wr: "set_cell (board b) (15 - row) ci stone =
        Inr ((board b)[nat (15 - row) := (board b ! nat (15 - row))[nat ci := stone]])"
      by (intro wf_set_cell) simp_all
    have st: "stone_at b col row = board b ! nat (15 - row) ! nat ci"
      by (simp add: stone_at_def ci wf_size [OF wf])
    from ci have "printable (15 - row)" "printable ci"
      by (simp_all add: small_printable)
    with pr have "list_all printable [row, 15 - row, ci]" "list_all printable [15 - row, ci]"
      by simp_all
    then obtain ss1 ss2 where fm: "str_ints [row, 15 - row, ci] = Inr ss1"
      "str_ints [15 - row, ci] = Inr ss2"
      using str_ints_printable by blast
    have valid: "is_valid_move b col row =
        Inr (if stone_at b col row \<noteq> ''.''
             then (False, ''Position '' @ col @ row_s @ '' is already occupied'')
             else (True, ''''))"
      by (simp add: is_valid_move_def True ci rd st row_s)
    let ?h = "move_history b @ [(col, row, stone)]"
    have hist: "list_all printable (map (\<lambda>(c, r, s). r) ?h) = printable_history b"
      unfolding printable_rows using pr by (simp add: printable_history_def)
    show ?thesis
    proof (cases "printable_history b")
      case ph: True
      with hist obtain ss3 where "str_ints (map (\<lambda>(c, r, s). r) ?h) = Inr ss3"
        using str_ints_printable by blast
      with ph pr True show ?thesis
        by (simp add: place_stone_def row_s valid ci fm rd wr st Let_def del: str_ints.simps)
    next
      case nph: False
      with hist have "str_ints (map (\<lambda>(c, r, s). r) ?h) = Inl ValueError"
        using str_ints_unprintable by blast
      with nph pr True show ?thesis
        by (simp add: place_stone_def row_s valid ci fm rd wr st Let_def del: str_ints.simps)
    qed
  qed
qed

lemma wf_stone_at:
  assumes wf: "wf_board b" and v: "validate_coordinates b col row"
  obtains ci where "0 \<le> ci" "ci < 15" "BOARD_COLUMNS ! nat ci = col" "col_to_idx b col = Some ci"
    "1 \<le> row" "row \<le> 15" "stone_at b col row = board b ! nat (15 - row) ! nat ci"
proof -
  from wf v obtain ci where ci: "col_to_idx b col = Some ci" "0 \<le> ci" "ci < 15"
    "BOARD_COLUMNS ! nat ci = col" "0 \<le> 15 - row" "15 - row < 15"
    by (rule wf_valid_indices)
  then show ?thesis
    by (intro that [of ci]) (simp_all add: stone_at_def wf_size [OF wf])
qed

lemma wf_board_update:
  assumes wf: "wf_board b" and r: "r < 15" 
  shows "wf_board (b\<lparr>board := (board b)[r := (board b ! r)[c := v]], move_history := h\<rparr>)"
proof -
  from wf r have "board b ! r \<in> set (board b)"
    by (simp add: wf_board_def BOARD_SIZE_def)
  with wf have "length (board b ! r) = 15"
    by (simp add: wf_board_def BOARD_SIZE_def list_all_iff)
  with wf show ?thesis
    by (auto simp: wf_board_def BOARD_SIZE_def list_all_iff dest!: set_update_subset_insert [THEN subsetD])
qed

lemma stone_at_update:
  assumes wf: "wf_board b" and v: "validate_coordinates b col row"
    and v': "validate_coordinates b c r"
  shows "stone_at (b\<lparr>board := (board b)[nat (15 - row) :=
                 (board b ! nat (15 - row))[nat (the (col_to_idx b col)) := stone]],
               move_history := h\<rparr>) c r =
         (if c = col \<and> r = row then stone else stone_at b c r)"
proof -
  from wf v obtain ci where ci: "0 \<le> ci" "ci < 15" "BOARD_COLUMNS ! nat ci = col"
    "col_to_idx b col = Some ci" "1 \<le> row" "row \<le> 15"
    by (rule wf_stone_at)
  from wf v' obtain cj where cj: "0 \<le> cj" "cj < 15" "BOARD_COLUMNS ! nat cj = c"
    "col_to_idx b c = Some cj" "1 \<le> r" "r \<le> 15"
    by (rule wf_stone_at)
  from wf have len: "length (board b) = 15" by (simp add: wf_board_def BOARD_SIZE_def)
  from ci len have "board b ! nat (15 - row) \<in> set (board b)" by simp
  with wf have len': "length (board b ! nat (15 - row)) = 15"
    by (simp add: wf_board_def BOARD_SIZE_def list_all_iff)
  have same: "c = col \<longleftrightarrow> cj = ci"
  proof
    assume "c = col"
    with ci(4) cj(4) show "cj = ci" by simp
  next
    assume "cj = ci"
    with ci(3) cj(3) show "c = col" by simp
  qed
  have rows: "nat (15 - row) = nat (15 - r) \<longleftrightarrow> r = row"
    using ci(5,6) cj(5,6) by arith
  have colsi: "nat ci = nat cj \<longleftrightarrow> cj = ci"
    using ci(1) cj(1) by arith
  show ?thesis
    using ci cj len len'
    by (simp add: stone_at_def wf_size [OF wf] nth_list_update same rows colsi)
qed

lemma valid_row_printable:
  assumes "wf_board b" "validate_coordinates b col row"
  shows "printable row"
proof -
  from assms have "1 \<le> row" "row \<le> 15" by (simp_all add: wf_validate)
  then show ?thesis by (intro small_printable) simp
qed

lemma place_stone_raise:
  assumes "wf_board b" "\<not> printable row"
  shows "place_stone b col row stone = Inl (ValueError, b)"
  using assms(2) place_stone_wf_eq [OF assms(1), of col row stone] by simp

lemma place_stone_failure:
  assumes "wf_board b" "printable row" "\<not> legal_move b col row stone"
  shows "place_stone b col row stone = Inr (False, b)"
  using assms(2,3) place_stone_wf_eq [OF assms(1), of col row stone]
  by (auto simp: legal_move_def)

lemma place_stone_placed:
  assumes wf: "wf_board b" and legal: "legal_move b col row stone"
  obtains b' where
    "place_stone b col row stone = (if printable_history b then Inr (True, b') else Inl (ValueError, b'))"
    "wf_board b'"
    "move_history b' = move_history b @ [(col, row, stone)]"
    "\<forall>c r. validate_coordinates b c r \<longrightarrow>
        stone_at b' c r = (if c = col \<and> r = row then stone else stone_at b c r)"
    "board b' = (board b)[nat (15 - row) :=
        (board b ! nat (15 - row))[nat (the (col_to_idx b col)) := stone]]"
proof -
  let ?b' = "b\<lparr>board := (board b)[nat (15 - row) :=
                 (board b ! nat (15 - row))[nat (the (col_to_idx b col)) := stone]],
               move_history := move_history b @ [(col, row, stone)]\<rparr>"
  from legal have v: "validate_coordinates b col row" by (simp add: legal_move_def)
  note pr = valid_row_printable [OF wf v]
  from legal pr place_stone_wf_eq [OF wf, of col row stone]
  have eq: "place_stone b col row stone =
      (if printable_history b then Inr (True, ?b') else Inl (ValueError, ?b'))"
    by (auto simp: legal_move_def)
  from wf v have "1 \<le> row" "row \<le> 15" by (simp_all add: wf_validate)
  then have "nat (15 - row) < 15" by arith
  from wf_board_update [OF wf this] have wf': "wf_board ?b'" .
  have cells: "\<forall>c r. validate_coordinates b c r \<longrightarrow>
           stone_at ?b' c r = (if c = col \<and> r = row then stone else stone_at b c r)"
    by (intro allI impI) (rule stone_at_update [OF wf v])
  from eq wf' cells show ?thesis by (intro that [of ?b']) simp_all
qed

lemma place_stone_success:
  assumes wf: "wf_board b" and legal: "legal_move b col row stone" and ph: "printable_history b"
  obtains b' where "place_stone b col row stone = Inr (True, b')" "wf_board b'"
    "move_history b' = move_history b @ [(col, row, stone)]"
    "\<forall>c r. validate_coordinates b c r \<longrightarrow>
        stone_at b' c r = (if c = col \<and> r = row then stone else stone_at b c r)"
    "board b' = (board b)[nat (15 - row) :=
        (board b ! nat (15 - row))[nat (the (col_to_idx b col)) := stone]]"
proof -
  from wf legal obtain b' where b':
    "place_stone b col row stone = (if printable_history b then Inr (True, b') else Inl (ValueError, b'))"
    "wf_board b'"
    "move_history b' = move_history b @ [(col, row, stone)]"
    "\<forall>c r. validate_coordinates b c r \<longrightarrow>
        stone_at b' c r = (if c = col \<and> r = row then stone else stone_at b c r)"
    "board b' = (board b)[nat (15 - row) :=
        (board b ! nat (15 - row))[nat (the (col_to_idx b col)) := stone]]"
    by (rule place_stone_placed)
  from b'(1) ph have "place_stone b col row stone = Inr (True, b')" by simp
  with b'(2-5) show ?thesis by (intro that [of b'])
qed

lemma printable_history_init: "printable_history init_board"
  by (simp add: printable_history_def init_board_def)




lemma wf_validate_same:
  "wf_board b \<Longrightarrow> wf_board b' \<Longrightarrow> validate_coordinates b' col row = validate_coordinates b col row"
  by (simp add: wf_validate)

text \<open>Claim C8: a successful \<^verbatim>\<open>place_stone\<close> on a valid, empty coordinate with a legal
  stone tag, followed by \<^verbatim>\<open>get_stone\<close> on the same coordinate, returns the stone placed;
  and on such a coordinate \<^verbatim>\<open>place_stone\<close> does succeed when the rows of the history
  can be formatted for its last debug message.\<close>

theorem place_then_get:
  assumes wf: "wf_board b" and v: "validate_coordinates b col row"
    and e: "stone_at b col row = ''.''" and s: "stone = ''B'' \<or> stone = ''W''"
  shows "(printable_history b \<longrightarrow> (\<exists>b'. place_stone b col row stone = Inr (True, b'))) \<and>
         (\<forall>b'. place_stone b col row stone = Inr (True, b') \<longrightarrow>
                get_stone b' col row = Inr (Some stone))"
proof -
  from v e s have "legal_move b col row stone" by (simp add: legal_move_def)
  with wf obtain b1 where b1:
    "place_stone b col row stone = (if printable_history b then Inr (True, b1) else Inl (ValueError, b1))"
    "wf_board b1"
    "move_history b1 = move_history b @ [(col, row, stone)]"
    "\<forall>c r. validate_coordinates b c r \<longrightarrow>
        stone_at b1 c r = (if c = col \<and> r = row then stone else stone_at b c r)"
    "board b1 = (board b)[nat (15 - row) :=
        (board b ! nat (15 - row))[nat (the (col_to_idx b col)) := stone]]"
    by (rule place_stone_placed)
  from b1(4) v have st: "stone_at b1 col row = stone" by simp
  from v have v': "validate_coordinates b1 col row"
    by (simp add: wf_validate_same [OF wf b1(2)])
  from s have "stone \<noteq> ''.''" by auto
  with wf_get_stone [OF b1(2), of col row] st v'
  have get: "get_stone b1 col row = Inr (Some stone)" by simp
  show ?thesis
  proof (cases "printable_history b")
    case True
    with b1(1) have "place_stone b col row stone = Inr (True, b1)" by simp
    with get True show ?thesis by simp
  next
    case False
    with b1(1) have "place_stone b col row stone = Inl (ValueError, b1)" by simp
    with False show ?thesis by simp
  qed
qed

theorem place_then_get_witness:
  "wf_board init_board \<and> validate_coordinates init_board ''A'' 15 \<and>
   stone_at init_board ''A'' 15 = ''.'' \<and> printable_history init_board \<and>
   (\<exists>b'. place_stone init_board ''A'' 15 ''W'' = Inr (True, b') \<and>
         get_stone b' ''A'' 15 = Inr (Some ''W''))"
proof -
  have v: "validate_coordinates init_board ''A'' 15" by code_simp
  have e: "stone_at init_board ''A'' 15 = ''.''" by code_simp
  from place_then_get [OF wf_init_board v e, of "''W''"] printable_history_init
  have "\<exists>b'. place_stone init_board ''A'' 15 ''W'' = Inr (True, b') \<and>
         get_stone b' ''A'' 15 = Inr (Some ''W'')"
    by auto
  with v e wf_init_board printable_history_init show ?thesis by simp
qed

section \<open>The full board\<close>

lemma row_full_iff: "row_full cells \<longleftrightarrow> (\<forall>cell\<in>set cells. cell \<noteq> ''.'')"
  by (induction cells) auto

lemma rows_full_iff: "rows_full g \<longleftrightarrow> (\<forall>line\<in>set g. \<forall>cell\<in>set line. cell \<noteq> ''.'')"
  by (induction g) (auto simp: row_full_iff)

lemma wf_row_length:
  assumes "wf_board b" "r < 15"
  shows "length (board b) = 15" "length (board b ! r) = 15"
proof -
  from assms show len: "length (board b) = 15" by (simp add: wf_board_def BOARD_SIZE_def)
  with assms have "board b ! r \<in> set (board b)" by simp
  with assms show "length (board b ! r) = 15"
    by (simp add: wf_board_def BOARD_SIZE_def list_all_iff)
qed

lemma wf_stone_at_index:
  assumes wf: "wf_board b" and r: "r < 15" and c: "c < 15"
  shows "validate_coordinates b (BOARD_COLUMNS ! c) (15 - int r)"
    and "stone_at b (BOARD_COLUMNS ! c) (15 - int r) = board b ! r ! c"
proof -
  from c have "BOARD_COLUMNS ! c \<in> set BOARD_COLUMNS" by (simp add: length_cols)
  with r show "validate_coordinates b (BOARD_COLUMNS ! c) (15 - int r)"
    by (simp add: wf_validate [OF wf])
  from c have "col_to_idx b (BOARD_COLUMNS ! c) = Some (int c)"
    by (simp add: wf_col_to_idx [OF wf] col_to_index_nth)
  then show "stone_at b (BOARD_COLUMNS ! c) (15 - int r) = board b ! r ! c"
    by (simp add: stone_at_def wf_size [OF wf])
qed

lemma wf_board_full_iff:
  assumes wf: "wf_board b"
  shows "is_board_full b \<longleftrightarrow>
    (\<forall>col row. validate_coordinates b col row \<longrightarrow> stone_at b col row \<noteq> ''.'')"
proof
  assume full: "is_board_full b"
  show "\<forall>col row. validate_coordinates b col row \<longrightarrow> stone_at b col row \<noteq> ''.''"
  proof (intro allI impI)
    fix col row
    assume v: "validate_coordinates b col row"
    from wf v obtain ci where ci: "0 \<le> ci" "ci < 15" "1 \<le> row" "row \<le> 15"
      "stone_at b col row = board b ! nat (15 - row) ! nat ci"
      by (rule wf_stone_at)
    from ci have r: "nat (15 - row) < 15" by arith
    from ci have c: "nat ci < 15" by arith
    from wf_row_length [OF wf r] r c
    have "board b ! nat (15 - row) \<in> set (board b)"
      "board b ! nat (15 - row) ! nat ci \<in> set (board b ! nat (15 - row))"
      by simp_all
    with full ci(5) show "stone_at b col row \<noteq> ''.''"
      by (simp add: is_board_full_def rows_full_iff)
  qed
next
  assume all: "\<forall>col row. validate_coordinates b col row \<longrightarrow> stone_at b col row \<noteq> ''.''"
  have "\<forall>line\<in>set (board b). \<forall>cell\<in>set line. cell \<noteq> ''.''"
  proof (intro ballI)
    fix line cell
    assume "line \<in> set (board b)"
    then obtain r where r: "r < length (board b)" "board b ! r = line"
      by (auto simp: in_set_conv_nth)
    assume "cell \<in> set line"
    then obtain c where c: "c < length line" "line ! c = cell"
      by (auto simp: in_set_conv_nth)
    from wf r have r15: "r < 15" by (simp add: wf_board_def BOARD_SIZE_def)
    with wf_row_length [OF wf r15] r c have c15: "c < 15" by simp
    from wf_stone_at_index [OF wf r15 c15] all r c show "cell \<noteq> ''.''" by auto
  qed
  then show "is_board_full b" by (simp add: is_board_full_def rows_full_iff)
qed

text \<open>Claim C9: \<^verbatim>\<open>is_board_full\<close> is true if and only if every cell of the board (the
  cell of every valid coordinate) is non-empty; so it is false as soon as one cell is
  empty.\<close>

theorem is_board_full_iff:
  "wf_board b \<Longrightarrow>
   is_board_full b \<longleftrightarrow>
     (\<forall>col row. validate_coordinates b col row \<longrightarrow> stone_at b col row \<noteq> ''.'')"
  by (rule wf_board_full_iff)

theorem is_board_full_iff_witness:
  "wf_board init_board \<and> validate_coordinates init_board ''O'' 1 \<and>
   stone_at init_board ''O'' 1 = ''.'' \<and> \<not> is_board_full init_board"
proof -
  have v: "validate_coordinates init_board ''O'' 1" "stone_at init_board ''O'' 1 = ''.''"
    by code_simp+
  with is_board_full_iff [OF wf_init_board] have "\<not> is_board_full init_board" by blast
  with v wf_init_board show ?thesis by simp
qed

section \<open>Boards reached by play\<close>

lemma filter_length_update:
  "i < length xs \<Longrightarrow> \<not> P (xs ! i) \<Longrightarrow> P v \<Longrightarrow>
   length (filter P (xs[i := v])) = Suc (length (filter P xs))"
proof (induction xs arbitrary: i)
  case Nil
  then show ?case by simp
next
  case (Cons x xs)
  then show ?case by (cases i) simp_all
qed

lemma sum_list_map_update:
  fixes f :: "'a \<Rightarrow> nat"
  shows "r < length g \<Longrightarrow> sum_list (map f (g[r := l])) + f (g ! r) = sum_list (map f g) + f l"
proof (induction g arbitrary: r)
  case Nil
  then show ?case by simp
next
  case (Cons x g)
  then show ?case by (cases r) (simp_all add: add.assoc)
qed

lemma place_stone_count:
  assumes wf: "wf_board b" and legal: "legal_move b col row stone"
    and b': "board b' = (board b)[nat (15 - row) :=
        (board b ! nat (15 - row))[nat (the (col_to_idx b col)) := stone]]"
  shows "nonempty_count b' = Suc (nonempty_count b)"
proof -
  let ?P = "\<lambda>cell. cell \<noteq> ''.''"
  let ?f = "\<lambda>line. length (filter ?P line)"
  let ?r = "nat (15 - row)" and ?c = "nat (the (col_to_idx b col))"
  from legal have v: "validate_coordinates b col row" and e: "stone_at b col row = ''.''"
    and s: "?P stone" by (auto simp: legal_move_def)
  from wf v obtain ci where ci: "0 \<le> ci" "ci < 15" "col_to_idx b col = Some ci"
    "1 \<le> row" "row \<le> 15" "stone_at b col row = board b ! nat (15 - row) ! nat ci"
    by (rule wf_stone_at)
  from ci have r: "?r < 15" by arith
  from ci have c: "?c < 15" by simp
  note len = wf_row_length [OF wf r]
  from e ci have "\<not> ?P (board b ! ?r ! ?c)" by simp
  with c len s have "?f ((board b ! ?r)[?c := stone]) = Suc (?f (board b ! ?r))"
    by (intro filter_length_update) simp_all
  moreover from r len
  have "sum_list (map ?f ((board b)[?r := (board b ! ?r)[?c := stone]])) + ?f (board b ! ?r) =
        sum_list (map ?f (board b)) + ?f ((board b ! ?r)[?c := stone])"
    by (intro sum_list_map_update) simp
  ultimately show ?thesis by (simp add: nonempty_count_def b')
qed

lemma place_stone_step:
  assumes wf: "wf_board b" and ph: "printable_history b"
    and p: "b' = board_after (place_stone b col row stone)"
  shows "wf_board b'"
    and "printable_history b'"
    and "prefix (move_history b) (move_history b')"
    and "nonempty_count b' + length (move_history b) = nonempty_count b + length (move_history b')"
    and "validate_coordinates b c r \<Longrightarrow> stone_at b c r \<noteq> ''.'' \<Longrightarrow> stone_at b' c r = stone_at b c r"
proof -
  have "wf_board b' \<and> printable_history b' \<and> prefix (move_history b) (move_history b') \<and>
    nonempty_count b' + length (move_history b) = nonempty_count b + length (move_history b') \<and>
    (validate_coordinates b c r \<longrightarrow> stone_at b c r \<noteq> ''.'' \<longrightarrow> stone_at b' c r = stone_at b c r)"
  proof (cases "legal_move b col row stone")
    case False
    have "b' = b"
    proof (cases "printable row")
      case True
      from place_stone_failure [OF wf True False] p show ?thesis
        by (simp add: board_after_def)
    next
      case False
      from place_stone_raise [OF wf False] p show ?thesis
        by (simp add: board_after_def)
    qed
    with wf ph show ?thesis by simp
  next
    case True
    from wf True ph obtain b1 where b1: "place_stone b col row stone = Inr (True, b1)" "wf_board b1"
      "move_history b1 = move_history b @ [(col, row, stone)]"
      "\<forall>c r. validate_coordinates b c r \<longrightarrow>
          stone_at b1 c r = (if c = col \<and> r = row then stone else stone_at b c r)"
      "board b1 = (board b)[nat (15 - row) :=
          (board b ! nat (15 - row))[nat (the (col_to_idx b col)) := stone]]"
      by (rule place_stone_success)
    from b1(1) p have eq: "b' = b1" by (simp add: board_after_def)
    from place_stone_count [OF wf True b1(5)] have cnt: "nonempty_count b1 = Suc (nonempty_count b)" .
    from True have "validate_coordinates b col row" by (simp add: legal_move_def)
    from valid_row_printable [OF wf this] ph b1(3) have ph1: "printable_history b1"
      by (simp add: printable_history_def)
    from True have "stone_at b col row = ''.''" by (simp add: legal_move_def)
    with b1(4) have "validate_coordinates b c r \<longrightarrow> stone_at b c r \<noteq> ''.'' \<longrightarrow>
        stone_at b1 c r = stone_at b c r"
      by auto
    with b1 cnt ph1 show ?thesis unfolding eq by simp
  qed
  then show "wf_board b'"
    and "printable_history b'"
    and "prefix (move_history b) (move_history b')"
    and "nonempty_count b' + length (move_history b) = nonempty_count b + length (move_history b')"
    and "validate_coordinates b c r \<Longrightarrow> stone_at b c r \<noteq> ''.'' \<Longrightarrow> stone_at b' c r = stone_at b c r"
    by simp_all
qed

lemma plays_invariants:
  assumes "plays b b'" "wf_board b" "printable_history b"
  shows "wf_board b' \<and> printable_history b' \<and> prefix (move_history b) (move_history b') \<and>
    nonempty_count b' + length (move_history b) = nonempty_count b + length (move_history b') \<and>
    (\<forall>c r. validate_coordinates b c r \<and> stone_at b c r \<noteq> ''.'' \<longrightarrow> stone_at b' c r = stone_at b c r)"
  using assms
proof (induction rule: plays.induct)
  case (plays_none b)
  then show ?case by simp
next
  case (plays_step b b' b'' col row stone)
  from plays_step.IH [OF plays_step.prems] have wf': "wf_board b'"
    and ph': "printable_history b'"
    and pre: "prefix (move_history b) (move_history b')"
    and cnt: "nonempty_count b' + length (move_history b) = nonempty_count b + length (move_history b')"
    and cells: "\<forall>c r. validate_coordinates b c r \<and> stone_at b c r \<noteq> ''.'' \<longrightarrow> stone_at b' c r = stone_at b c r"
    by simp_all
  note st = place_stone_step [OF wf' ph' plays_step.hyps(2)]
  have "\<forall>c r. validate_coordinates b c r \<and> stone_at b c r \<noteq> ''.'' \<longrightarrow> stone_at b'' c r = stone_at b c r"
  proof (intro allI impI)
    fix c r
    assume a: "validate_coordinates b c r \<and> stone_at b c r \<noteq> ''.''"
    with cells have eq: "stone_at b' c r = stone_at b c r" by simp
    from a have "validate_coordinates b' c r"
      by (simp add: wf_validate_same [OF plays_step.prems(1) wf'])
    from st(5) [OF this] a eq show "stone_at b'' c r = stone_at b c r" by simp
  qed
  moreover from pre st(3) have "prefix (move_history b) (move_history b'')"
    by (rule prefix_order.trans)
  moreover from cnt st(4)
  have "nonempty_count b'' + length (move_history b) = nonempty_count b + length (move_history b'')"
    by arith
  ultimately show ?case using st(1,2) by simp
qed

lemma sum_list_zero: "(\<And>x. x \<in> set xs \<Longrightarrow> f x = (0::nat)) \<Longrightarrow> sum_list (map f xs) = 0"
  by (induction xs) simp_all

lemma nonempty_count_init: "nonempty_count init_board = 0"
  unfolding nonempty_count_def init_board_def
  by (rule sum_list_zero) auto

lemma move_history_init: "move_history init_board = []"
  by (simp add: init_board_def)

text \<open>Claim C6: in every board \<open>b\<close> reached from the empty board by \<^verbatim>\<open>place_stone\<close> calls,
  the number of non-empty cells is the length of the move history; and in every board
  \<open>b'\<close> reached from \<open>b\<close> by further calls the move history of \<open>b\<close> is a prefix of that of
  \<open>b'\<close> and every cell occupied in \<open>b\<close> holds the same stone in \<open>b'\<close>.\<close>

theorem reachable_invariants:
  assumes "plays init_board b" "plays b b'"
  shows "nonempty_count b = length (move_history b) \<and>
    prefix (move_history b) (move_history b') \<and>
    (\<forall>c r. validate_coordinates b c r \<and> stone_at b c r \<noteq> ''.'' \<longrightarrow>
       stone_at b' c r = stone_at b c r)"
proof -
  from plays_invariants [OF assms(1) wf_init_board printable_history_init]
  have wf: "wf_board b" and ph: "printable_history b"
    and "nonempty_count b = length (move_history b)"
    by (simp_all add: nonempty_count_init move_history_init)
  with plays_invariants [OF assms(2) wf ph] show ?thesis by simp
qed

theorem reachable_invariants_witness:
  "\<exists>b b'. plays init_board b \<and> plays b b' \<and>
     move_history b = [(''H'', 8, ''B'')] \<and>
     move_history b' = [(''H'', 8, ''B''), (''H'', 9, ''W'')] \<and>
     nonempty_count b = 1 \<and> stone_at b ''H'' 8 = ''B'' \<and> stone_at b' ''H'' 8 = ''B''"
proof -
  have l1: "legal_move init_board ''H'' 8 ''B''" by code_simp
  have v: "validate_coordinates init_board ''H'' 8" "validate_coordinates init_board ''H'' 9"
    "stone_at init_board ''H'' 9 = ''.''"
    by code_simp+
  from wf_init_board l1 printable_history_init obtain b1 where b1: "place_stone init_board ''H'' 8 ''B'' = Inr (True, b1)"
    "wf_board b1" "move_history b1 = move_history init_board @ [(''H'', 8, ''B'')]"
    "\<forall>c r. validate_coordinates init_board c r \<longrightarrow>
        stone_at b1 c r = (if c = ''H'' \<and> r = 8 then ''B'' else stone_at init_board c r)"
    "board b1 = (board init_board)[nat (15 - 8) :=
        (board init_board ! nat (15 - 8))[nat (the (col_to_idx init_board ''H'')) := ''B'']]"
    by (rule place_stone_success)
  from b1(1) have "b1 = board_after (place_stone init_board ''H'' 8 ''B'')"
    by (simp add: board_after_def)
  then have p1: "plays init_board b1" by (rule plays_step [OF plays_none])
  from b1(3) have ph1: "printable_history b1"
    by (simp add: printable_history_def move_history_init small_printable)
  from b1(4) v have s1: "stone_at b1 ''H'' 8 = ''B''" "stone_at b1 ''H'' 9 = ''.''" by simp_all
  from v have v1: "validate_coordinates b1 ''H'' 8" "validate_coordinates b1 ''H'' 9"
    by (simp_all add: wf_validate_same [OF wf_init_board b1(2)])
  with s1 have l2: "legal_move b1 ''H'' 9 ''W''" by (simp add: legal_move_def)
  from b1(2) l2 ph1 obtain b2 where b2: "place_stone b1 ''H'' 9 ''W'' = Inr (True, b2)"
    "wf_board b2" "move_history b2 = move_history b1 @ [(''H'', 9, ''W'')]"
    "\<forall>c r. validate_coordinates b1 c r \<longrightarrow>
        stone_at b2 c r = (if c = ''H'' \<and> r = 9 then ''W'' else stone_at b1 c r)"
    "board b2 = (board b1)[nat (15 - 9) :=
        (board b1 ! nat (15 - 9))[nat (the (col_to_idx b1 ''H'')) := ''W'']]"
    by (rule place_stone_success)
  from b2(1) have "b2 = board_after (place_stone b1 ''H'' 9 ''W'')"
    by (simp add: board_after_def)
  then have p2: "plays b1 b2" by (rule plays_step [OF plays_none])
  from reachable_invariants [OF p1 p2] v1 s1 b1(3) b2(3)
  have "nonempty_count b1 = 1" "stone_at b2 ''H'' 8 = ''B''"
    by (simp_all add: move_history_init)
  with p1 p2 s1 b1(3) b2(3) show ?thesis
    by (intro exI [of _ b1] exI [of _ b2]) (simp add: move_history_init)
qed

section \<open>The counting loop\<close>

lemma wf_owner_at_cell:
  assumes wf: "wf_board b"
  shows "owner_at b stone r c \<Longrightarrow> 0 \<le> r \<and> r < 15 \<and> 0 \<le> c \<and> c < 15 \<and> cell_at (board b) r c = Inr stone"
    and "\<not> owner_at b stone r c \<Longrightarrow> 0 \<le> r \<Longrightarrow> r < 15 \<Longrightarrow> 0 \<le> c \<Longrightarrow> c < 15 \<Longrightarrow>
         \<exists>s. cell_at (board b) r c = Inr s \<and> s \<noteq> stone"
  using wf_cell_at [OF wf, of r c]
  by (auto simp: owner_at_def wf_size [OF wf])

lemma count_loop_steps:
  assumes wf: "wf_board b"
  shows "(\<forall>k<n. owner_at b stone (row + int k * dr) (col + int k * dc)) \<Longrightarrow>
     \<not> owner_at b stone (row + int n * dr) (col + int n * dc) \<Longrightarrow>
     count_loop b dr dc stone cnt row col = Some (Inr (cnt + int n))"
proof (induction n arbitrary: cnt row col)
  case 0
  then have no: "\<not> owner_at b stone row col" by simp
  show ?case
  proof (cases "0 \<le> row \<and> row < 15 \<and> 0 \<le> col \<and> col < 15")
    case True
    with wf_owner_at_cell(2) [OF wf no] obtain s where "cell_at (board b) row col = Inr s" "s \<noteq> stone"
      by auto
    with True show ?thesis
      by (subst count_loop.simps) (simp add: wf_size [OF wf])
  next
    case False
    then show ?thesis
      by (subst count_loop.simps) (auto simp: wf_size [OF wf])
  qed
next
  case (Suc n)
  from Suc.prems(1) have "owner_at b stone (row + int 0 * dr) (col + int 0 * dc)" by blast
  then have here: "owner_at b stone row col" by simp
  from wf_owner_at_cell(1) [OF wf here]
  have inb: "0 \<le> row \<and> row < 15 \<and> 0 \<le> col \<and> col < 15" and cell: "cell_at (board b) row col = Inr stone"
    by simp_all
  have shift: "\<And>k. row + dr + int k * dr = row + int (Suc k) * dr"
    "\<And>k. col + dc + int k * dc = col + int (Suc k) * dc"
    by (simp_all add: algebra_simps)
  from Suc.prems(1) have a: "\<forall>k<n. owner_at b stone (row + dr + int k * dr) (col + dc + int k * dc)"
    unfolding shift by auto
  from Suc.prems(2) have b: "\<not> owner_at b stone (row + dr + int n * dr) (col + dc + int n * dc)"
    unfolding shift .
  from Suc.IH [OF a b, of "cnt + 1"]
  have "count_loop b dr dc stone (cnt + 1) (row + dr) (col + dc) = Some (Inr (cnt + 1 + int n))" .
  with inb cell show ?case
    by (subst count_loop.simps) (simp add: wf_size [OF wf])
qed

lemma takeWhile_upt_run:
  fixes P :: "nat \<Rightarrow> bool" and a m :: nat
  defines "n \<equiv> length (takeWhile P [a..<m])"
  shows "a + n \<le> max a m" and "\<forall>k. a \<le> k \<and> k < a + n \<longrightarrow> P k" and "a + n < m \<Longrightarrow> \<not> P (a + n)"
proof -
  have le: "n \<le> m - a"
    using length_takeWhile_le [of P "[a..<m]"] by (simp add: n_def)
  then show "a + n \<le> max a m" by arith
  have "takeWhile P [a..<m] = take n [a..<m]"
    unfolding n_def by (rule takeWhile_eq_take)
  also from le have "\<dots> = [a..<a + n]"
    by (cases "a \<le> m") (simp_all add: take_upt)
  finally have tw: "takeWhile P [a..<m] = [a..<a + n]" .
  show "\<forall>k. a \<le> k \<and> k < a + n \<longrightarrow> P k"
  proof (intro allI impI)
    fix k assume "a \<le> k \<and> k < a + n"
    then have "k \<in> set (takeWhile P [a..<m])" by (simp add: tw)
    then show "P k" by (rule set_takeWhileD [THEN conjunct2])
  qed
  assume lt: "a + n < m"
  then have "n < length [a..<m]" by simp
  then have "\<not> P ([a..<m] ! n)"
    unfolding n_def by (rule nth_length_takeWhile)
  with lt show "\<not> P (a + n)" by simp
qed

lemma adjacent_run_props:
  fixes stone :: string and r c :: int
  assumes wf: "wf_board b" and nz: "dr \<noteq> 0 \<or> dc \<noteq> 0"
  defines "n \<equiv> adjacent_run b stone r c dr dc"
  shows "\<forall>k. 1 \<le> k \<and> k \<le> n \<longrightarrow> owner_at b stone (r + int k * dr) (c + int k * dc)"
    and "\<not> owner_at b stone (r + int (Suc n) * dr) (c + int (Suc n) * dc)"
    and "n \<le> 15"
proof -
  let ?P = "\<lambda>k. owner_at b stone (r + int k * dr) (c + int k * dc)"
  have n: "n = length (takeWhile ?P [1..<16])"
    by (simp add: n_def adjacent_run_def wf_size [OF wf])
  from takeWhile_upt_run(1) [of 1 ?P 16] show n15: "n \<le> 15" by (simp add: n)
  from takeWhile_upt_run(2) [of 1 ?P 16]
  show all: "\<forall>k. 1 \<le> k \<and> k \<le> n \<longrightarrow> ?P k" by (simp add: n)
  show "\<not> ?P (Suc n)"
  proof (cases "n < 15")
    case True
    with takeWhile_upt_run(3) [of 1 ?P 16] show ?thesis by (simp add: n)
  next
    case False
    with n15 have n_eq: "n = 15" by simp
    show ?thesis
    proof
      assume last: "?P (Suc n)"
      from all n_eq have "1 \<le> (1::nat) \<and> (1::nat) \<le> n \<longrightarrow> ?P 1" by blast
      with n_eq have first: "?P 1" by simp
      from first have f: "0 \<le> r + dr" "r + dr < 15" "0 \<le> c + dc" "c + dc < 15"
        by (simp_all add: owner_at_def wf_size [OF wf])
      from last n_eq have l: "0 \<le> r + 16 * dr" "r + 16 * dr < 15" "0 \<le> c + 16 * dc" "c + 16 * dc < 15"
        by (simp_all add: owner_at_def wf_size [OF wf])
      from f l nz show False by arith
    qed
  qed
qed

lemma wf_count_consecutive:
  assumes wf: "wf_board b" and nz: "dr \<noteq> 0 \<or> dc \<noteq> 0"
  shows "count_consecutive b r c dr dc stone = Some (Inr (int (adjacent_run b stone r c dr dc)))"
proof -
  let ?n = "adjacent_run b stone r c dr dc"
  have shift: "\<And>k. r + dr + int k * dr = r + int (Suc k) * dr"
    "\<And>k. c + dc + int k * dc = c + int (Suc k) * dc"
    by (simp_all add: algebra_simps)
  have a: "\<forall>k<?n. owner_at b stone (r + dr + int k * dr) (c + dc + int k * dc)"
  proof (intro allI impI)
    fix k assume "k < ?n"
    then have "1 \<le> Suc k \<and> Suc k \<le> ?n" by simp
    with adjacent_run_props(1) [OF wf nz, of stone r c]
    have "owner_at b stone (r + int (Suc k) * dr) (c + int (Suc k) * dc)" by blast
    then show "owner_at b stone (r + dr + int k * dr) (c + dc + int k * dc)"
      by (simp only: shift)
  qed
  from adjacent_run_props(2) [OF wf nz, of stone r c]
  have b: "\<not> owner_at b stone (r + dr + int ?n * dr) (c + dc + int ?n * dc)"
    unfolding shift .
  from count_loop_steps [OF wf a b, of 0] show ?thesis
    by (simp add: count_consecutive_def)
qed

section \<open>The win test\<close>

lemma wf_board_of: "wf_board (board_of f)"
  using wf_init_board
  by (simp add: wf_board_def board_of_def BOARD_SIZE_def list_all_iff)

lemma directions_nonzero: "\<forall>d\<in>set directions. fst d \<noteq> 0 \<or> snd d \<noteq> 0"
  by (simp add: directions_def)

lemma wf_check_win_loop:
  assumes wf: "wf_board b"
  shows "\<forall>d\<in>set ds. fst d \<noteq> 0 \<or> snd d \<noteq> 0 \<Longrightarrow>
    check_win_loop b r c stone ds = Some (Inr (\<exists>d\<in>set ds. 5 \<le> line_total b stone r c d))"
proof (induction ds)
  case Nil
  show ?case by simp
next
  case (Cons d ds)
  obtain dr dc where d: "d = (dr, dc)" by (cases d)
  from Cons.prems d have nz: "dr \<noteq> 0 \<or> dc \<noteq> 0" and nz': "- dr \<noteq> 0 \<or> - dc \<noteq> 0"
    and rest: "\<forall>d\<in>set ds. fst d \<noteq> 0 \<or> snd d \<noteq> 0"
    by simp_all
  note pos = wf_count_consecutive [OF wf nz, of r c stone]
  note neg = wf_count_consecutive [OF wf nz', of r c stone]
  have tot: "(5 \<le> 1 + int (adjacent_run b stone r c dr dc) + int (adjacent_run b stone r c (- dr) (- dc)))
      \<longleftrightarrow> 5 \<le> line_total b stone r c d"
    unfolding line_total_def d fst_conv snd_conv by linarith
  show ?case
    unfolding d check_win_loop.simps pos neg bind_result_def
    using Cons.IH [OF rest] tot by (simp add: d)
qed

lemma wf_check_win:
  assumes wf: "wf_board b"
  shows "check_win b col row stone =
    Some (Inr (validate_coordinates b col row \<and> (\<exists>d\<in>set directions. wins_along b stone col row d)))"
proof (cases "validate_coordinates b col row")
  case False
  then show ?thesis by (simp add: check_win_def)
next
  case True
  from wf True obtain ci where ci: "col_to_idx b col = Some ci"
    "coord_to_indices b col row = Inr (15 - row, ci)"
    by (rule wf_valid_indices)
  from wf_check_win_loop [OF wf directions_nonzero, of "15 - row" ci stone] True ci
  show ?thesis
    by (simp add: check_win_def wins_along_def wf_size [OF wf])
qed

text \<open>Claim C1: on a well-formed board \<^verbatim>\<open>check_win\<close> returns; it returns false for a
  coordinate out of bounds, and for a coordinate in bounds it returns true if and only
  if, for one of the four directions, one plus the number of consecutive same-owner
  stones adjacent to the queried cell on the positive side plus the number on the
  negative side is at least five (so six or more in a row also give true).\<close>

theorem check_win_spec:
  "wf_board b \<Longrightarrow>
   check_win b col row stone =
     Some (Inr (validate_coordinates b col row \<and>
       (\<exists>d\<in>set directions.
          5 \<le> 1 + adjacent_run b stone (board_size b - row) (the (col_to_idx b col)) (fst d) (snd d)
                 + adjacent_run b stone (board_size b - row) (the (col_to_idx b col)) (- fst d) (- snd d))))"
  using wf_check_win [of b col row stone]
  by (simp add: wins_along_def line_total_def)

lemma wf_example_board: "wf_board example_board"
  by (simp add: example_board_def wf_board_of)

theorem check_win_spec_witness:
  "wf_board example_board \<and>
   check_win example_board ''E'' 8 ''B'' = Some (Inr True) \<and>
   check_win example_board ''A'' 1 ''B'' = Some (Inr False) \<and>
   check_win example_board ''Z'' 8 ''B'' = Some (Inr False)"
proof -
  let ?rhs = "\<lambda>col row. validate_coordinates example_board col row \<and>
       (\<exists>d\<in>set directions.
          5 \<le> 1 + adjacent_run example_board ''B'' (board_size example_board - row)
                    (the (col_to_idx example_board col)) (fst d) (snd d)
                 + adjacent_run example_board ''B'' (board_size example_board - row)
                    (the (col_to_idx example_board col)) (- fst d) (- snd d))"
  have a: "?rhs ''E'' 8 = True" by code_simp
  have b: "?rhs ''A'' 1 = False" by code_simp
  have c: "?rhs ''Z'' 8 = False" by code_simp
  from check_win_spec [OF wf_example_board, of "''E''" 8 "''B''"] a
  have a': "check_win example_board ''E'' 8 ''B'' = Some (Inr True)" by simp
  from check_win_spec [OF wf_example_board, of "''A''" 1 "''B''"] b
  have b': "check_win example_board ''A'' 1 ''B'' = Some (Inr False)" by simp
  from check_win_spec [OF wf_example_board, of "''Z''" 8 "''B''"] c
  have c': "check_win example_board ''Z'' 8 ''B'' = Some (Inr False)" by simp
  from a' b' c' wf_example_board show ?thesis by simp
qed

section \<open>The collecting loop and the winning line\<close>

lemma collect_loop_steps:
  assumes wf: "wf_board b"
  shows "(\<forall>k<n. owner_at b stone (row + int k * dr) (col + int k * dc)) \<Longrightarrow>
     \<not> owner_at b stone (row + int n * dr) (col + int n * dc) \<Longrightarrow>
     collect_loop b dr dc stone ps row col =
       Some (Inr (ps @ map (\<lambda>k. (BOARD_COLUMNS ! nat (col + int k * dc), 15 - (row + int k * dr))) [0..<n]))"
proof (induction n arbitrary: ps row col)
  case 0
  then have no: "\<not> owner_at b stone row col" by simp
  show ?case
  proof (cases "0 \<le> row \<and> row < 15 \<and> 0 \<le> col \<and> col < 15")
    case True
    with wf_owner_at_cell(2) [OF wf no] obtain s where "cell_at (board b) row col = Inr s" "s \<noteq> stone"
      by auto
    with True show ?thesis
      by (subst collect_loop.simps) (simp add: wf_size [OF wf])
  next
    case False
    then show ?thesis
      by (subst collect_loop.simps) (auto simp: wf_size [OF wf])
  qed
next
  case (Suc n)
  let ?g = "\<lambda>row col k. (BOARD_COLUMNS ! nat (col + int k * dc), 15 - (row + int k * dr))"
  from Suc.prems(1) have "owner_at b stone (row + int 0 * dr) (col + int 0 * dc)" by blast
  then have here: "owner_at b stone row col" by simp
  from wf_owner_at_cell(1) [OF wf here]
  have inb: "0 \<le> row \<and> row < 15 \<and> 0 \<le> col \<and> col < 15" and cell: "cell_at (board b) row col = Inr stone"
    by simp_all
  from inb have coord: "indices_to_coord b row col = Inr (BOARD_COLUMNS ! nat col, 15 - row)"
    by (simp add: wf_indices_to_coord [OF wf])
  have shift: "\<And>k. row + dr + int k * dr = row + int (Suc k) * dr"
    "\<And>k. col + dc + int k * dc = col + int (Suc k) * dc"
    by (simp_all add: algebra_simps)
  have a: "\<forall>k<n. owner_at b stone (row + dr + int k * dr) (col + dc + int k * dc)"
  proof (intro allI impI)
    fix k assume "k < n"
    then have "Suc k < Suc n" by simp
    with Suc.prems(1) have "owner_at b stone (row + int (Suc k) * dr) (col + int (Suc k) * dc)" by blast
    then show "owner_at b stone (row + dr + int k * dr) (col + dc + int k * dc)"
      by (simp only: shift)
  qed
  from Suc.prems(2) have b: "\<not> owner_at b stone (row + dr + int n * dr) (col + dc + int n * dc)"
    unfolding shift .
  have g: "map (?g (row + dr) (col + dc)) [0..<n] = map (?g row col) (map Suc [0..<n])"
    by (simp only: map_map o_def shift)
  have "map (?g row col) [0..<Suc n] = ?g row col 0 # map (?g row col) (map Suc [0..<n])"
    by (simp only: map_Suc_upt upt_conv_Cons [of 0 "Suc n"] zero_less_Suc list.map)
  then have split: "map (?g row col) [0..<Suc n] =
      (BOARD_COLUMNS ! nat col, 15 - row) # map (?g (row + dr) (col + dc)) [0..<n]"
    by (simp add: g)
  from Suc.IH [OF a b, of "ps @ [(BOARD_COLUMNS ! nat col, 15 - row)]"]
  have "collect_loop b dr dc stone (ps @ [(BOARD_COLUMNS ! nat col, 15 - row)]) (row + dr) (col + dc) =
      Some (Inr (ps @ map (?g row col) [0..<Suc n]))"
    by (simp only: split append_assoc append_Cons append_Nil)
  with inb cell coord show ?case
    by (subst collect_loop.simps) (simp add: wf_size [OF wf])
qed

lemma wf_collect_line:
  assumes wf: "wf_board b" and nz: "dr \<noteq> 0 \<or> dc \<noteq> 0"
  shows "collect_line b r c dr dc stone ps =
    Some (Inr (ps @ ray b r c dr dc (adjacent_run b stone r c dr dc)))"
proof -
  let ?n = "adjacent_run b stone r c dr dc"
  have shift: "\<And>k. r + dr + int k * dr = r + int (Suc k) * dr"
    "\<And>k. c + dc + int k * dc = c + int (Suc k) * dc"
    by (simp_all add: algebra_simps)
  have a: "\<forall>k<?n. owner_at b stone (r + dr + int k * dr) (c + dc + int k * dc)"
  proof (intro allI impI)
    fix k assume "k < ?n"
    then have "1 \<le> Suc k \<and> Suc k \<le> ?n" by simp
    with adjacent_run_props(1) [OF wf nz, of stone r c]
    have "owner_at b stone (r + int (Suc k) * dr) (c + int (Suc k) * dc)" by blast
    then show "owner_at b stone (r + dr + int k * dr) (c + dc + int k * dc)"
      by (simp only: shift)
  qed
  from adjacent_run_props(2) [OF wf nz, of stone r c]
  have b: "\<not> owner_at b stone (r + dr + int ?n * dr) (c + dc + int ?n * dc)"
    unfolding shift .
  have "ray b r c dr dc ?n =
      map (\<lambda>k. (BOARD_COLUMNS ! nat (c + int k * dc), 15 - (r + int k * dr))) (map Suc [0..<?n])"
    unfolding ray_def wf_size [OF wf] wf_cols [OF wf] by (simp only: map_Suc_upt One_nat_def)
  also have "\<dots> = map (\<lambda>k. (BOARD_COLUMNS ! nat (c + dc + int k * dc), 15 - (r + dr + int k * dr))) [0..<?n]"
    by (simp only: map_map o_def shift)
  finally have ray: "ray b r c dr dc ?n =
      map (\<lambda>k. (BOARD_COLUMNS ! nat (c + dc + int k * dc), 15 - (r + dr + int k * dr))) [0..<?n]" .
  from collect_loop_steps [OF wf a b, of ps] show ?thesis
    by (simp only: collect_line_def ray)
qed

lemma length_ray: "length (ray b r c dr dc n) = n"
  by (simp add: ray_def)

lemma length_line_from: "length (line_from b stone col row r c d) = line_total b stone r c d"
  by (simp add: line_from_def line_total_def length_ray)

lemma wf_winning_line_loop:
  assumes wf: "wf_board b"
  shows "\<forall>d\<in>set ds. fst d \<noteq> 0 \<or> snd d \<noteq> 0 \<Longrightarrow>
    winning_line_loop b col row r c stone ds =
      Some (Inr (map_option (\<lambda>d. take 5 (line_from b stone col row r c d))
                   (find (\<lambda>d. 5 \<le> line_total b stone r c d) ds)))"
proof (induction ds)
  case Nil
  show ?case by simp
next
  case (Cons d ds)
  obtain dr dc where d: "d = (dr, dc)" by (cases d)
  from Cons.prems d have nz: "dr \<noteq> 0 \<or> dc \<noteq> 0" and nz': "- dr \<noteq> 0 \<or> - dc \<noteq> 0"
    and rest: "\<forall>d\<in>set ds. fst d \<noteq> 0 \<or> snd d \<noteq> 0"
    by simp_all
  have pos: "collect_line b r c dr dc stone [(col, row)] =
      Some (Inr ([(col, row)] @ ray b r c dr dc (adjacent_run b stone r c dr dc)))"
    by (rule wf_collect_line [OF wf nz])
  have neg: "collect_line b r c (- dr) (- dc) stone
        ([(col, row)] @ ray b r c dr dc (adjacent_run b stone r c dr dc)) =
      Some (Inr (line_from b stone col row r c d))"
    unfolding wf_collect_line [OF wf nz'] by (simp add: line_from_def d)
  have len: "(5 \<le> int (length (line_from b stone col row r c d))) \<longleftrightarrow> 5 \<le> line_total b stone r c d"
    unfolding length_line_from by linarith
  have step: "winning_line_loop b col row r c stone (d # ds) =
      (if 5 \<le> line_total b stone r c d then Some (Inr (Some (take 5 (line_from b stone col row r c d))))
       else winning_line_loop b col row r c stone ds)"
    unfolding d winning_line_loop.simps pos bind_result_def
    using neg len by (simp add: d)
  show ?case unfolding step using Cons.IH [OF rest] by simp
qed

lemma line_from_cells:
  "line_from b stone col row (board_size b - row) (the (col_to_idx b col)) d = line_cells b stone col row d"
  by (simp add: line_from_def line_cells_def Let_def)

lemma wf_get_winning_line:
  assumes wf: "wf_board b"
  shows "get_winning_line b col row stone =
    Some (Inr (if validate_coordinates b col row
               then map_option (\<lambda>d. take 5 (line_cells b stone col row d))
                      (find (wins_along b stone col row) directions)
               else None))"
proof (cases "validate_coordinates b col row")
  case False
  then show ?thesis
    by (simp add: get_winning_line_def wf_check_win [OF wf] bind_result_def)
next
  case True
  from wf True obtain ci where ci: "col_to_idx b col = Some ci"
    "coord_to_indices b col row = Inr (15 - row, ci)"
    by (rule wf_valid_indices)
  have wl: "winning_line_loop b col row (15 - row) ci stone directions =
      Some (Inr (map_option (\<lambda>d. take 5 (line_cells b stone col row d))
                   (find (wins_along b stone col row) directions)))"
    unfolding wf_winning_line_loop [OF wf directions_nonzero]
    using line_from_cells [of b stone col row] ci(1)
    by (simp add: wins_along_def [abs_def] wf_size [OF wf])
  show ?thesis
  proof (cases "\<exists>d\<in>set directions. wins_along b stone col row d")
    case win: True
    with True ci wl show ?thesis
      by (simp add: get_winning_line_def wf_check_win [OF wf] bind_result_def)
  next
    case nowin: False
    then have "find (wins_along b stone col row) directions = None"
      by (simp add: find_None_iff)
    with True nowin show ?thesis
      by (simp add: get_winning_line_def wf_check_win [OF wf] bind_result_def)
  qed
qed

lemma length_line_cells:
  "length (line_cells b stone col row d) =
     line_total b stone (board_size b - row) (the (col_to_idx b col)) d"
  unfolding line_from_cells [symmetric] by (rule length_line_from)

text \<open>Claim C2: on a well-formed board \<^verbatim>\<open>get_winning_line\<close> returns; its result is
  \<^verbatim>\<open>None\<close> exactly when \<^verbatim>\<open>check_win\<close> returns false for the same arguments; when
  \<^verbatim>\<open>check_win\<close> returns true the result is a list of exactly five coordinates, the first
  five of: the placed cell, then the same-owner neighbours in the positive direction in
  increasing distance, then those in the negative direction in increasing distance, for
  a direction with a total of at least five.\<close>

theorem get_winning_line_spec:
  assumes wf: "wf_board b"
  shows "\<exists>res. get_winning_line b col row stone = Some (Inr res) \<and>
     (res = None \<longleftrightarrow> check_win b col row stone = Some (Inr False)) \<and>
     (check_win b col row stone = Some (Inr True) \<longrightarrow>
        (\<exists>d\<in>set directions. wins_along b stone col row d \<and>
           res = Some (take 5 (line_cells b stone col row d)) \<and>
           length (take 5 (line_cells b stone col row d)) = 5))"
proof (cases "validate_coordinates b col row \<and> (\<exists>d\<in>set directions. wins_along b stone col row d)")
  case False
  then have "validate_coordinates b col row \<Longrightarrow> find (wins_along b stone col row) directions = None"
    by (simp add: find_None_iff)
  with False have "get_winning_line b col row stone = Some (Inr None)"
    by (cases "validate_coordinates b col row") (simp_all add: wf_get_winning_line [OF wf])
  moreover from False have "check_win b col row stone = Some (Inr False)"
    by (simp add: wf_check_win [OF wf])
  ultimately show ?thesis by simp
next
  case True
  then have "find (wins_along b stone col row) directions \<noteq> None"
    unfolding find_None_iff by blast
  then obtain d where f: "find (wins_along b stone col row) directions = Some d" by auto
  then have d: "d \<in> set directions" "wins_along b stone col row d"
    by (auto simp: find_Some_iff)
  from d(2) have "5 \<le> length (line_cells b stone col row d)"
    by (simp add: length_line_cells wins_along_def)
  then have len: "length (take 5 (line_cells b stone col row d)) = 5" by simp
  from True f have "get_winning_line b col row stone = Some (Inr (Some (take 5 (line_cells b stone col row d))))"
    by (simp add: wf_get_winning_line [OF wf])
  moreover from True have "check_win b col row stone = Some (Inr True)"
    by (simp add: wf_check_win [OF wf])
  ultimately show ?thesis using d len by auto
qed

theorem get_winning_line_spec_witness:
  "wf_board example_board \<and>
   check_win example_board ''E'' 8 ''B'' = Some (Inr True) \<and>
   (\<exists>line. get_winning_line example_board ''E'' 8 ''B'' = Some (Inr (Some line)) \<and> length line = 5) \<and>
   check_win example_board ''A'' 1 ''B'' = Some (Inr False) \<and>
   get_winning_line example_board ''A'' 1 ''B'' = Some (Inr None)"
proof -
  have a: "check_win example_board ''E'' 8 ''B'' = Some (Inr True)" by code_simp
  have b: "check_win example_board ''A'' 1 ''B'' = Some (Inr False)" by code_simp
  from get_winning_line_spec [OF wf_example_board, of "''E''" 8 "''B''"] a
  have a': "\<exists>line. get_winning_line example_board ''E'' 8 ''B'' = Some (Inr (Some line)) \<and> length line = 5"
    by auto
  from get_winning_line_spec [OF wf_example_board, of "''A''" 1 "''B''"] b
  have b': "get_winning_line example_board ''A'' 1 ''B'' = Some (Inr None)" by auto
  from a b a' b' wf_example_board show ?thesis by simp
qed

text \<open>Claim C3: when several directions have a line of five or more through the
  coordinate, \<^verbatim>\<open>get_winning_line\<close> reports the line of the first such direction in the
  order of the list \<open>directions\<close> (horizontal, vertical, the diagonal \<open>(1, 1)\<close>, the
  diagonal \<open>(1, -1)\<close>): the direction at index \<open>i\<close> is reported when it has such a line
  and no direction of a smaller index has one.\<close>

theorem get_winning_line_first_direction:
  assumes wf: "wf_board b" and v: "validate_coordinates b col row"
    and i: "i < length directions"
    and win: "wins_along b stone col row (directions ! i)"
    and first: "\<forall>j<i. \<not> wins_along b stone col row (directions ! j)"
  shows "get_winning_line b col row stone =
    Some (Inr (Some (take 5 (line_cells b stone col row (directions ! i)))))"
proof -
  from i win first have "find (wins_along b stone col row) directions = Some (directions ! i)"
    unfolding find_Some_iff by blast
  with v show ?thesis by (simp add: wf_get_winning_line [OF wf])
qed

theorem get_winning_line_first_direction_witness:
  "wf_board example_board \<and> validate_coordinates example_board ''E'' 8 \<and>
   directions ! 0 = (0, 1) \<and> directions ! 1 = (1, 0) \<and>
   wins_along example_board ''B'' ''E'' 8 (directions ! 0) \<and>
   wins_along example_board ''B'' ''E'' 8 (directions ! 1) \<and>
   get_winning_line example_board ''E'' 8 ''B'' =
     Some (Inr (Some [(''E'', 8), (''F'', 8), (''G'', 8), (''H'', 8), (''D'', 8)]))"
proof -
  have v: "validate_coordinates example_board ''E'' 8" by code_simp
  have i: "0 < length directions" by (simp add: directions_def)
  have w0: "wins_along example_board ''B'' ''E'' 8 (directions ! 0)" by code_simp
  have w1: "wins_along example_board ''B'' ''E'' 8 (directions ! 1)" by code_simp
  have d: "directions ! 0 = (0, 1)" "directions ! 1 = (1, 0)" by (simp_all add: directions_def)
  have line: "take 5 (line_cells example_board ''B'' ''E'' 8 (directions ! 0)) =
      [(''E'', 8), (''F'', 8), (''G'', 8), (''H'', 8), (''D'', 8)]"
    by code_simp
  from get_winning_line_first_direction [OF wf_example_board v i w0] line
  have "get_winning_line example_board ''E'' 8 ''B'' =
     Some (Inr (Some [(''E'', 8), (''F'', 8), (''G'', 8), (''H'', 8), (''D'', 8)]))"
    by simp
  with v w0 w1 d wf_example_board show ?thesis by simp
qed

section \<open>The queried cell is not read\<close>

lemma owner_at_with_cell:
  assumes wf: "wf_board b" and v: "validate_coordinates b col row"
    and other: "r \<noteq> board_size b - row \<or> c \<noteq> the (col_to_idx b col)"
  shows "owner_at (with_cell b col row x) stone r c = owner_at b stone r c"
proof (cases "0 \<le> r \<and> r < 15 \<and> 0 \<le> c \<and> c < 15")
  case False
  then show ?thesis
    by (auto simp: owner_at_def with_cell_def wf_size [OF wf])
next
  case True
  from wf v obtain ci where ci: "col_to_idx b col = Some ci" "0 \<le> ci" "ci < 15"
    "0 \<le> 15 - row" "15 - row < 15"
    by (rule wf_valid_indices)
  from True have r: "nat r < 15" by arith
  from ci have r0: "nat (15 - row) < 15" by arith
  note len = wf_row_length [OF wf r0]
  from other ci True have ne: "nat r \<noteq> nat (15 - row) \<or> nat c \<noteq> nat ci"
    unfolding wf_size [OF wf] by auto
  have "(board b)[nat (15 - row) := (board b ! nat (15 - row))[nat ci := x]] ! nat r ! nat c
      = board b ! nat r ! nat c"
  proof (cases "nat r = nat (15 - row)")
    case True
    with ne have "nat c \<noteq> nat ci" by simp
    with True len r show ?thesis by simp
  next
    case False
    then show ?thesis by simp
  qed
  then show ?thesis
    by (simp add: owner_at_def with_cell_def wf_size [OF wf] ci)
qed

lemma adjacent_run_with_cell:
  assumes wf: "wf_board b" and v: "validate_coordinates b col row"
    and nz: "dr \<noteq> 0 \<or> dc \<noteq> 0"
  shows "adjacent_run (with_cell b col row x) stone (board_size b - row) (the (col_to_idx b col)) dr dc =
         adjacent_run b stone (board_size b - row) (the (col_to_idx b col)) dr dc"
proof -
  let ?r = "board_size b - row" and ?c = "the (col_to_idx b col)"
  have size: "board_size (with_cell b col row x) = board_size b"
    by (simp add: with_cell_def)
  have "takeWhile (\<lambda>k. owner_at (with_cell b col row x) stone (?r + int k * dr) (?c + int k * dc))
          [1..<Suc (nat (board_size b))] =
        takeWhile (\<lambda>k. owner_at b stone (?r + int k * dr) (?c + int k * dc))
          [1..<Suc (nat (board_size b))]"
  proof (rule takeWhile_cong [OF refl])
    fix k assume "k \<in> set [1..<Suc (nat (board_size b))]"
    then have "1 \<le> k" unfolding set_upt by simp
    then have "0 < int k" by simp
    with nz have "?r + int k * dr \<noteq> ?r \<or> ?c + int k * dc \<noteq> ?c" by simp
    from owner_at_with_cell [OF wf v this]
    show "owner_at (with_cell b col row x) stone (?r + int k * dr) (?c + int k * dc) =
          owner_at b stone (?r + int k * dr) (?c + int k * dc)" .
  qed
  then show ?thesis by (simp only: adjacent_run_def size)
qed

lemma wf_with_cell:
  assumes wf: "wf_board b" and v: "validate_coordinates b col row"
  shows "wf_board (with_cell b col row x)"
    and "validate_coordinates (with_cell b col row x) col row"
    and "board_size (with_cell b col row x) = board_size b"
    and "col_to_idx (with_cell b col row x) = col_to_idx b"
proof -
  from wf v have "1 \<le> row" "row \<le> 15" by (simp_all add: wf_validate)
  then have "nat (15 - row) < 15" by arith
  from wf_board_update [OF wf this, where c = "nat (the (col_to_idx b col))" and v = x and h = "move_history b"]
  show wf': "wf_board (with_cell b col row x)"
    by (simp add: with_cell_def wf_size [OF wf])
  from v show "validate_coordinates (with_cell b col row x) col row"
    by (simp add: wf_validate_same [OF wf wf'])
  show "board_size (with_cell b col row x) = board_size b"
    and "col_to_idx (with_cell b col row x) = col_to_idx b"
    by (simp_all add: with_cell_def)
qed

text \<open>Claim C10: \<^verbatim>\<open>check_win\<close> does not read the queried cell. For a valid coordinate
  and any content \<open>x\<close> put in its cell (a stone of either owner or the empty mark),
  \<^verbatim>\<open>check_win\<close> returns true exactly when, for some direction, the same-owner runs
  adjacent to the cell on the two sides total at least four.\<close>

theorem check_win_ignores_queried_cell:
  assumes wf: "wf_board b" and v: "validate_coordinates b col row"
  shows "check_win (with_cell b col row x) col row stone =
    Some (Inr (\<exists>d\<in>set directions.
      4 \<le> adjacent_run b stone (board_size b - row) (the (col_to_idx b col)) (fst d) (snd d)
         + adjacent_run b stone (board_size b - row) (the (col_to_idx b col)) (- fst d) (- snd d)))"
proof -
  note w = wf_with_cell [OF wf v, of x]
  have "\<And>d. d \<in> set directions \<Longrightarrow>
      wins_along (with_cell b col row x) stone col row d \<longleftrightarrow>
      4 \<le> adjacent_run b stone (board_size b - row) (the (col_to_idx b col)) (fst d) (snd d)
         + adjacent_run b stone (board_size b - row) (the (col_to_idx b col)) (- fst d) (- snd d)"
  proof -
    fix d assume "d \<in> set directions"
    with directions_nonzero have nz: "fst d \<noteq> 0 \<or> snd d \<noteq> 0" by blast
    then have nz': "- fst d \<noteq> 0 \<or> - snd d \<noteq> 0" by simp
    show "wins_along (with_cell b col row x) stone col row d \<longleftrightarrow>
      4 \<le> adjacent_run b stone (board_size b - row) (the (col_to_idx b col)) (fst d) (snd d)
         + adjacent_run b stone (board_size b - row) (the (col_to_idx b col)) (- fst d) (- snd d)"
      unfolding wins_along_def line_total_def w(3) w(4)
        adjacent_run_with_cell [OF wf v nz] adjacent_run_with_cell [OF wf v nz']
      by linarith
  qed
  then show ?thesis
    by (simp add: wf_check_win [OF w(1)] w(2))
qed

theorem check_win_ignores_queried_cell_witness:
  "wf_board example_board \<and> validate_coordinates example_board ''E'' 8 \<and>
   stone_at (with_cell example_board ''E'' 8 ''.'') ''E'' 8 = ''.'' \<and>
   check_win (with_cell example_board ''E'' 8 ''.'') ''E'' 8 ''B'' = Some (Inr True) \<and>
   stone_at (with_cell example_board ''E'' 8 ''W'') ''E'' 8 = ''W'' \<and>
   check_win (with_cell example_board ''E'' 8 ''W'') ''E'' 8 ''B'' = Some (Inr True)"
proof -
  have v: "validate_coordinates example_board ''E'' 8" by code_simp
  have s: "stone_at (with_cell example_board ''E'' 8 ''.'') ''E'' 8 = ''.''"
    "stone_at (with_cell example_board ''E'' 8 ''W'') ''E'' 8 = ''W''"
    by code_simp+
  have r: "(\<exists>d\<in>set directions.
      4 \<le> adjacent_run example_board ''B'' (board_size example_board - 8)
              (the (col_to_idx example_board ''E'')) (fst d) (snd d)
         + adjacent_run example_board ''B'' (board_size example_board - 8)
              (the (col_to_idx example_board ''E'')) (- fst d) (- snd d)) = True"
    by code_simp
  from check_win_ignores_queried_cell [OF wf_example_board v, of "''.''" "''B''"] r
  have a: "check_win (with_cell example_board ''E'' 8 ''.'') ''E'' 8 ''B'' = Some (Inr True)" by simp
  from check_win_ignores_queried_cell [OF wf_example_board v, of "''W''" "''B''"] r
  have b: "check_win (with_cell example_board ''E'' 8 ''W'') ''E'' 8 ''B'' = Some (Inr True)" by simp
  from a b v s wf_example_board show ?thesis by simp
qed

end
